theory Spec2Isabelle
  imports Complex_Main "HOL-Library.Word" "HOL-Library.Extended_Nat"
begin

chapter \<open>The programs\<close>

section \<open>JavaScript strings\<close>

text \<open>
  A JavaScript string is a sequence of UTF-16 code units. The numeric notation of
  \<^verbatim>\<open>number.ts\<close> uses the Greek letter mu (U+03BC), which is one code unit and does
  not fit an 8-bit character, so strings are lists of 16-bit words throughout.
  \<open>js\<close> embeds an ASCII literal.
\<close>

type_synonym jschar = "16 word"

type_synonym jsstring = "jschar list"

definition js :: "string \<Rightarrow> jsstring" where
  "js cs = map of_char cs"

section \<open>Identifier table and registries (components/electronic-part/common.ts)\<close>

subsection \<open>Data\<close>

text \<open>
  \<^verbatim>\<open>PartType\<close> and the catalog \<^verbatim>\<open>Electronics\<close> are declared in
  \<^verbatim>\<open>parts.ts\<close>, which is not among the sources: a part type is an opaque tag, and
  the catalog's prefix \<^verbatim>\<open>Electronics[type].pre\<close> is a parameter \<open>pre\<close> of every
  function that reads it. A DOM element is known by its identity only.
\<close>

type_synonym PartType = nat

type_synonym HTMLElement = nat

datatype ElecType = Line | Part PartType

text \<open>The fields of the class \<^verbatim>\<open>ElectronicCore\<close> that the module reads or writes.\<close>

record ElectronicCore =
  id' :: jsstring
  connect :: "jsstring list"
  type' :: ElecType
  el :: HTMLElement

text \<open>
  The module state: the global table \<^verbatim>\<open>mapHash\<close>, the two exported arrays, which
  hold references to component instances, and the store of the instances themselves. An
  instance that nothing has written yet carries the field initialisers of the class.
\<close>

type_synonym ref = nat

record state =
  mapHash :: "jsstring \<rightharpoonup> bool"
  PartComponents :: "ref list"
  LineComponents :: "ref list"
  heap :: "ref \<Rightarrow> ElectronicCore"

definition maxNumber :: nat where
  "maxNumber = 50"

definition new_instance :: ElectronicCore where
  "new_instance = \<lparr>id' = [], connect = [], type' = Line, el = 0\<rparr>"

definition init :: "(ref \<Rightarrow> ElectronicCore) \<Rightarrow> state" where
  "init h = \<lparr>mapHash = Map.empty, PartComponents = [], LineComponents = [], heap = h\<rparr>"

text \<open>
  \<^verbatim>\<open>mapHash\<close> is the object literal \<^verbatim>\<open>{}\<close>, so a read of a key that the table
  does not hold itself goes to \<^verbatim>\<open>Object.prototype\<close>. These are the property names of
  \<^verbatim>\<open>Object.prototype\<close>; their values are functions, and for \<^verbatim>\<open>__proto__\<close> the
  prototype object itself, all of them truthy.
\<close>

definition Object_prototype :: "jsstring list" where
  "Object_prototype =
     map js [''constructor'', ''__defineGetter__'', ''__defineSetter__'', ''hasOwnProperty'',
             ''__lookupGetter__'', ''__lookupSetter__'', ''isPrototypeOf'',
             ''propertyIsEnumerable'', ''toString'', ''valueOf'', ''__proto__'',
             ''toLocaleString'']"

text \<open>
  \<^verbatim>\<open>mapHash[id]\<close> in a condition. It is truthy when the table holds \<^verbatim>\<open>true\<close> under
  the key, or the key is one of the inherited names; every other key reads
  \<^verbatim>\<open>undefined\<close>, which is falsy. (The module stores no value but \<^verbatim>\<open>true\<close>, so a
  key of the table never hides an inherited value behind a falsy one.)
\<close>

definition truthy :: "(jsstring \<rightharpoonup> bool) \<Rightarrow> jsstring \<Rightarrow> bool" where
  "truthy m k = (m k = Some True \<or> k \<in> set Object_prototype)"

text \<open>The argument of the two lookups, \<^verbatim>\<open>string | HTMLElement\<close>, and what the modules throw.\<close>

datatype query = Str jsstring | Elem HTMLElement

datatype error =
    MaximumNumberOfDevices
  | CanNotFindThisPart query
  | CanNotFindThisLine query
  | CannotRunToRoundOnNaN
  | TypeError
  | RangeError

subsection \<open>markId, deleteId, hasId, changeId\<close>

text \<open>
  \<^verbatim>\<open>mapHash[id] = true\<close> adds the key to the table, also when the name is inherited.
  The one exception is \<^verbatim>\<open>__proto__\<close>, an accessor of \<^verbatim>\<open>Object.prototype\<close>: the
  assignment calls its setter, which ignores a value that is not an object and stores
  nothing.
\<close>

definition markId :: "jsstring \<Rightarrow> state \<Rightarrow> state" where
  "markId i s =
     (if i = js ''__proto__'' then s else s\<lparr>mapHash := (mapHash s)(i \<mapsto> True)\<rparr>)"

text \<open>
  \<^verbatim>\<open>delete mapHash[id]\<close> removes a key of the table itself; an inherited property is
  out of its reach and reads as before.
\<close>

definition deleteId :: "jsstring \<Rightarrow> state \<Rightarrow> bool \<times> state" where
  "deleteId i s =
     (if truthy (mapHash s) i then (True, s\<lparr>mapHash := (mapHash s)(i := None)\<rparr>)
      else (False, s))"

definition hasId :: "jsstring \<Rightarrow> state \<Rightarrow> bool" where
  "hasId i s = truthy (mapHash s) i"

text \<open>
  The body of the watcher on \<^verbatim>\<open>id\<close> has two statements: first \<^verbatim>\<open>markId(newId)\<close>,
  then \<^verbatim>\<open>deleteId(oldId)\<close>, whose result is dropped. \<open>changeId_states\<close> lists the state
  after each of them, in the order in which they run; the watcher leaves the last one.
\<close>

definition changeId_states :: "jsstring \<Rightarrow> jsstring \<Rightarrow> state \<Rightarrow> state list" where
  "changeId_states newId oldId s =
     (let s1 = markId newId s;
          s2 = snd (deleteId oldId s1)
      in [s1, s2])"

definition changeId :: "jsstring \<Rightarrow> jsstring \<Rightarrow> state \<Rightarrow> state" where
  "changeId newId oldId s = last (changeId_states newId oldId s)"

subsection \<open>createId\<close>

definition underscore :: jschar where
  "underscore = 95"

text \<open>
  \<^verbatim>\<open>id.match(/^([^_]+)(_[^_]+)?$/)\<close>: the first capture group when the whole string
  matches, \<open>None\<close> when \<^verbatim>\<open>match\<close> returns \<^verbatim>\<open>null\<close>.
\<close>

definition createId_match :: "jsstring \<Rightarrow> jsstring option" where
  "createId_match i =
     (let a = takeWhile (\<lambda>c. c \<noteq> underscore) i;
          r = dropWhile (\<lambda>c. c \<noteq> underscore) i
      in if a = [] then None
         else if r = [] then Some a
         else if tl r \<noteq> [] \<and> underscore \<notin> set (tl r) then Some a
         else None)"

text \<open>
  \<^verbatim>\<open>String(i)\<close> for a counter \<open>i\<close>: its decimal digits. (The counter is a JavaScript
  number; it is exact, and printed positionally, far beyond any table that fits a memory.)
\<close>

definition digit_char :: "nat \<Rightarrow> jschar" where
  "digit_char d = of_nat (48 + d)"

fun String_nat :: "nat \<Rightarrow> jsstring" where
  "String_nat n =
     (if n < 10 then [digit_char n] else String_nat (n div 10) @ [digit_char (n mod 10)])"

declare String_nat.simps [simp del]

text \<open>The template \<^verbatim>\<open>`${pre[1]}_${i}`\<close>.\<close>

definition candidate :: "jsstring \<Rightarrow> nat \<Rightarrow> jsstring" where
  "candidate pre1 i = pre1 @ [underscore] @ String_nat i"

text \<open>
  The loop \<^verbatim>\<open>for (let i = 1; i <= max; i++)\<close>. With \<^verbatim>\<open>max = Infinity\<close> it has no
  bound of its own, so it is a partial function: \<open>None\<close> is a loop that never returns.
\<close>

partial_function (option) createId_loop ::
  "state \<Rightarrow> jsstring \<Rightarrow> enat \<Rightarrow> nat \<Rightarrow> (error + jsstring) option" where
  "createId_loop s pre1 mx i =
     (if enat i \<le> mx
      then (if \<not> truthy (mapHash s) (candidate pre1 i) then Some (Inr (candidate pre1 i))
            else createId_loop s pre1 mx (i + 1))
      else Some (Inl MaximumNumberOfDevices))"

definition createId :: "jsstring \<Rightarrow> state \<Rightarrow> (error + jsstring) option" where
  "createId i s =
     (case createId_match i of
        None \<Rightarrow> Some (Inl TypeError)
      | Some pre1 \<Rightarrow>
          createId_loop s pre1 (if pre1 = js ''line'' then \<infinity> else enat maxNumber) 1)"

subsection \<open>findPartComponent, findLineComponent\<close>

definition is_letter :: "jschar \<Rightarrow> bool" where
  "is_letter c = ((97 \<le> c \<and> c \<le> 122) \<or> (65 \<le> c \<and> c \<le> 90))"

definition is_digit :: "jschar \<Rightarrow> bool" where
  "is_digit c = (48 \<le> c \<and> c \<le> 57)"

definition is_alnum :: "jschar \<Rightarrow> bool" where
  "is_alnum c = (is_letter c \<or> is_digit c)"

text \<open>
  \<^verbatim>\<open>/[a-zA-Z]+_[a-zA-Z0-9]+/\<close> tried at the start of a string: the longest run of
  letters, an underscore, the longest run of letters and digits. (Giving back letters
  cannot help: the character after a shorter run is a letter, not an underscore.)
\<close>

definition id_match_here :: "jsstring \<Rightarrow> jsstring option" where
  "id_match_here str =
     (let a = takeWhile is_letter str; r = dropWhile is_letter str
      in if a = [] then None
         else (case r of
                 [] \<Rightarrow> None
               | c # r' \<Rightarrow>
                   if c = underscore \<and> takeWhile is_alnum r' \<noteq> []
                   then Some (a @ [underscore] @ takeWhile is_alnum r')
                   else None))"

text \<open>
  \<^verbatim>\<open>value.match(/[a-zA-Z]+_[a-zA-Z0-9]+/)\<close>: the match at the leftmost position that
  has one; element \<^verbatim>\<open>[0]\<close> of the result, \<open>None\<close> for \<^verbatim>\<open>null\<close>.
\<close>

fun id_match :: "jsstring \<Rightarrow> jsstring option" where
  "id_match [] = None"
| "id_match (c # cs) =
     (case id_match_here (c # cs) of Some m \<Rightarrow> Some m | None \<Rightarrow> id_match cs)"

definition findPartComponent :: "query \<Rightarrow> state \<Rightarrow> error + ref" where
  "findPartComponent v s =
     (case v of
        Str str \<Rightarrow>
          (case id_match str of
             None \<Rightarrow> Inl TypeError
           | Some valueMatch \<Rightarrow>
               (case find (\<lambda>part. id' (heap s part) = valueMatch) (PartComponents s) of
                  None \<Rightarrow> Inl (CanNotFindThisPart v)
                | Some result \<Rightarrow> Inr result))
      | Elem e \<Rightarrow>
          (case find (\<lambda>part. el (heap s part) = e) (PartComponents s) of
             None \<Rightarrow> Inl (CanNotFindThisPart v)
           | Some result \<Rightarrow> Inr result))"

definition findLineComponent :: "query \<Rightarrow> state \<Rightarrow> error + ref" where
  "findLineComponent v s =
     (case find (\<lambda>line. case v of Str str \<Rightarrow> id' (heap s line) = str
                                | Elem e \<Rightarrow> el (heap s line) = e) (LineComponents s) of
        None \<Rightarrow> Inl (CanNotFindThisLine v)
      | Some result \<Rightarrow> Inr result)"

subsection \<open>created, beforeDestroy\<close>

definition created :: "(PartType \<Rightarrow> jsstring) \<Rightarrow> ref \<Rightarrow> state \<Rightarrow> (error + state) option" where
  "created pre this s =
     (case (if id' (heap s this) \<noteq> [] then Some (Inr (id' (heap s this)))
            else createId (case type' (heap s this) of Line \<Rightarrow> js ''line'' | Part t \<Rightarrow> pre t) s) of
        None \<Rightarrow> None
      | Some (Inl e) \<Rightarrow> Some (Inl e)
      | Some (Inr i) \<Rightarrow>
          (let s1 = markId i (s\<lparr>heap := (heap s)(this := (heap s this)\<lparr>id' := i\<rparr>)\<rparr>)
           in Some (Inr (case type' (heap s this) of
                           Line \<Rightarrow> s1\<lparr>LineComponents := LineComponents s1 @ [this]\<rparr>
                         | Part t \<Rightarrow> s1\<lparr>PartComponents := PartComponents s1 @ [this]\<rparr>))))"

text \<open>
  Modelled from the spec: \<^verbatim>\<open>Array.prototype.delete\<close>, an extension of the array prototype
  that is not among the sources. The spec's RemoveWhere "removes the first handle in the
  matching collection for which predicate holds; no-op if none match".
\<close>

fun delete_first :: "('a \<Rightarrow> bool) \<Rightarrow> 'a list \<Rightarrow> 'a list" where
  "delete_first P [] = []"
| "delete_first P (x # xs) = (if P x then xs else x # delete_first P xs)"

definition beforeDestroy :: "ref \<Rightarrow> state \<Rightarrow> state" where
  "beforeDestroy this s =
     (let s1 = snd (deleteId (id' (heap s this)) s)
      in case type' (heap s this) of
           Line \<Rightarrow> s1\<lparr>LineComponents :=
                      delete_first (\<lambda>line. id' (heap s1 line) = id' (heap s1 this)) (LineComponents s1)\<rparr>
         | Part t \<Rightarrow> s1\<lparr>PartComponents :=
                      delete_first (\<lambda>part. id' (heap s1 part) = id' (heap s1 this)) (PartComponents s1)\<rparr>)"

subsection \<open>The lifecycle as a sequence of calls\<close>

text \<open>
  One call of the lifecycle: the \<^verbatim>\<open>created\<close> hook of an instance, its
  \<^verbatim>\<open>beforeDestroy\<close> hook, or an assignment to its \<^verbatim>\<open>id\<close>. When the hooks and the
  watcher run is the framework's business; a sequence lists the calls in the order in
  which they run.
\<close>

datatype op = CreateEntity ref | DestroyEntity ref | RenameEntity ref jsstring

text \<open>
  An assignment \<^verbatim>\<open>this.id = newId\<close>. \<^verbatim>\<open>changeId\<close> is declared with
  \<^verbatim>\<open>@Watch('id')\<close>, and the framework calls a watcher only when the value of the
  property has changed: then it runs \<^verbatim>\<open>changeId(newId, oldId)\<close> with the value the
  property had before. An assignment of the value that the property already has calls
  nothing. \<open>rename_states\<close> lists the states that the watcher passes through.
\<close>

definition rename_states :: "ref \<Rightarrow> jsstring \<Rightarrow> state \<Rightarrow> state list" where
  "rename_states this newId s =
     (if newId = id' (heap s this) then []
      else changeId_states newId (id' (heap s this))
             (s\<lparr>heap := (heap s)(this := (heap s this)\<lparr>id' := newId\<rparr>)\<rparr>))"

definition rename :: "ref \<Rightarrow> jsstring \<Rightarrow> state \<Rightarrow> state" where
  "rename this newId s =
     (if newId = id' (heap s this) then s
      else changeId newId (id' (heap s this))
             (s\<lparr>heap := (heap s)(this := (heap s this)\<lparr>id' := newId\<rparr>)\<rparr>))"

fun step :: "(PartType \<Rightarrow> jsstring) \<Rightarrow> op \<Rightarrow> state \<Rightarrow> (error + state) option" where
  "step pre (CreateEntity this) s = created pre this s"
| "step pre (DestroyEntity this) s = Some (Inr (beforeDestroy this s))"
| "step pre (RenameEntity this newId) s = Some (Inr (rename this newId s))"

text \<open>
  The states a caller can observe while a sequence of calls runs: the state before each
  call, and the state after the last one. The run ends at a call that throws.
\<close>

fun trace :: "(PartType \<Rightarrow> jsstring) \<Rightarrow> op list \<Rightarrow> state \<Rightarrow> state list" where
  "trace pre [] s = [s]"
| "trace pre (c # cs) s =
     s # (case step pre c s of Some (Inr s') \<Rightarrow> trace pre cs s' | _ \<Rightarrow> [])"

definition live :: "state \<Rightarrow> ref list" where
  "live s = PartComponents s @ LineComponents s"

definition live_ids :: "state \<Rightarrow> jsstring list" where
  "live_ids s = map (\<lambda>r. id' (heap s r)) (live s)"

section \<open>Numeric notation (lib/number.ts)\<close>

text \<open>
  A JavaScript number is modelled as \<^verbatim>\<open>NaN\<close> or an exact rational: the arithmetic
  below is the arithmetic of the source without the rounding and the overflow of IEEE
  doubles.
\<close>

datatype number = NaN | Num rat

definition dot :: jschar where
  "dot = of_char CHR ''.''"

definition minus_sign :: jschar where
  "minus_sign = of_char CHR ''-''"

definition zero_char :: jschar where
  "zero_char = of_char CHR ''0''"

text \<open>The Greek small letter mu, U+03BC.\<close>

definition mu :: jschar where
  "mu = 0x3BC"

subsection \<open>numberMatcher\<close>

text \<open>\<^verbatim>\<open>\d+\<close>, and the character classes \<^verbatim>\<open>[eE]\<close> and \<^verbatim>\<open>[pu\<mu>nmkMG]\<close>.\<close>

definition is_digits :: "jsstring \<Rightarrow> bool" where
  "is_digits s = (s \<noteq> [] \<and> list_all is_digit s)"

definition is_eE :: "jschar \<Rightarrow> bool" where
  "is_eE c = (c = of_char CHR ''e'' \<or> c = of_char CHR ''E'')"

definition is_suffix :: "jschar \<Rightarrow> bool" where
  "is_suffix c = (c \<in> set (js ''pu'' @ [mu] @ js ''nmkMG''))"

text \<open>
  The three alternatives of \<^verbatim>\<open>numberMatcher\<close>, each anchored at both ends:
  \<^verbatim>\<open>^\d+(?:\.\d+)?$\<close>, then \<^verbatim>\<open>^\d+?(?:\.\d+)?[eE]-?\d+$\<close> (its mantissa cannot hold
  an \<open>e\<close>, so it ends at the first one), then \<^verbatim>\<open>^\d+(?:\.\d+)?[pu\<mu>nmkMG]$\<close>.
\<close>

definition plain_decimal :: "jsstring \<Rightarrow> bool" where
  "plain_decimal s =
     (takeWhile is_digit s \<noteq> [] \<and>
      (case dropWhile is_digit s of [] \<Rightarrow> True | c # f \<Rightarrow> c = dot \<and> is_digits f))"

definition scientific :: "jsstring \<Rightarrow> bool" where
  "scientific s =
     (plain_decimal (takeWhile (\<lambda>c. \<not> is_eE c) s) \<and>
      (case dropWhile (\<lambda>c. \<not> is_eE c) s of
         [] \<Rightarrow> False
       | e # x \<Rightarrow> (case x of [] \<Rightarrow> False
                    | c # d \<Rightarrow> if c = minus_sign then is_digits d else is_digits x)))"

definition si_suffixed :: "jsstring \<Rightarrow> bool" where
  "si_suffixed s = (s \<noteq> [] \<and> plain_decimal (butlast s) \<and> is_suffix (last s))"

definition numberMatcher :: "jsstring \<Rightarrow> bool" where
  "numberMatcher s = (plain_decimal s \<or> scientific s \<or> si_suffixed s)"

subsection \<open>numberParser\<close>

text \<open>The value of a run of digits, and of a literal \<^verbatim>\<open>\d+(\.\d+)?\<close>.\<close>

definition digits_value :: "jsstring \<Rightarrow> nat" where
  "digits_value ds = foldl (\<lambda>a c. 10 * a + (unat c - 48)) 0 ds"

definition decimal_value :: "jsstring \<Rightarrow> rat" where
  "decimal_value s =
     (case dropWhile is_digit s of
        [] \<Rightarrow> of_nat (digits_value s)
      | c # f \<Rightarrow> of_nat (digits_value (takeWhile is_digit s)) + of_nat (digits_value f) / 10 ^ length f)"

text \<open>
  \<^verbatim>\<open>Number(str)\<close> on the strings \<^verbatim>\<open>-?\d+(\.\d+)?\<close>, and \<^verbatim>\<open>Math.pow(10, x)\<close>
  on whole numbers \<open>x\<close>: the arguments \<^verbatim>\<open>numberParser\<close> passes. \<open>NaN\<close> stands for
  the result on any other argument; behind the matcher it is never reached (lemma
  \<open>numberParser_accepts\<close>). \<open>times'\<close> is the product \<^verbatim>\<open>*\<close>.
\<close>

definition Number' :: "jsstring \<Rightarrow> number" where
  "Number' str =
     (case str of
        [] \<Rightarrow> NaN
      | c # cs \<Rightarrow>
          if c = minus_sign then (if plain_decimal cs then Num (- decimal_value cs) else NaN)
          else if plain_decimal str then Num (decimal_value str) else NaN)"

definition Math_pow10 :: "number \<Rightarrow> number" where
  "Math_pow10 x =
     (case x of NaN \<Rightarrow> NaN
      | Num q \<Rightarrow> if of_int \<lfloor>q\<rfloor> = q then Num (10 powi \<lfloor>q\<rfloor>) else NaN)"

definition times' :: "number \<Rightarrow> number \<Rightarrow> number" where
  "times' x y = (case (x, y) of (Num a, Num b) \<Rightarrow> Num (a * b) | _ \<Rightarrow> NaN)"

text \<open>The object literal \<^verbatim>\<open>exp\<close>.\<close>

definition exp_table :: "jschar \<rightharpoonup> int" where
  "exp_table = [of_char CHR ''p'' \<mapsto> -12, of_char CHR ''u'' \<mapsto> -9, mu \<mapsto> -9,
     of_char CHR ''n'' \<mapsto> -6, of_char CHR ''m'' \<mapsto> -3, of_char CHR ''k'' \<mapsto> 3,
     of_char CHR ''M'' \<mapsto> 6, of_char CHR ''G'' \<mapsto> 9]"

text \<open>
  \<^verbatim>\<open>notation.split(/[eE]/)\<close> gives the text before the first \<open>e\<close> as \<^verbatim>\<open>base\<close> and
  the text up to the next one as \<^verbatim>\<open>power\<close>. None of the calls in the body can throw,
  so the result is a number.
\<close>

definition numberParser :: "jsstring \<Rightarrow> number" where
  "numberParser notation =
     (if \<not> numberMatcher notation then NaN
      else if list_ex is_eE notation
      then (let base = takeWhile (\<lambda>c. \<not> is_eE c) notation;
                pw = takeWhile (\<lambda>c. \<not> is_eE c) (tl (dropWhile (\<lambda>c. \<not> is_eE c) notation))
            in times' (Number' base) (Math_pow10 (Number' pw)))
      else if notation \<noteq> [] \<and> is_suffix (last notation)
      then (case exp_table (last notation) of
              None \<Rightarrow> NaN
            | Some pw \<Rightarrow> times' (Number' (butlast notation)) (Math_pow10 (Num (of_int pw))))
      else Number' notation)"

subsection \<open>toRound\<close>

text \<open>
  \<^verbatim>\<open>Math.floor(Math.log10(value))\<close> for a positive \<open>value\<close>, counted on the decimal
  digits of its integer part, or of the integer part of its reciprocal: it is the \<open>k\<close> with
  \<open>10\<^sup>k \<le> value < 10\<^sup>k\<^sup>+\<^sup>1\<close> (lemmas \<open>floor_log10_bounds\<close> and \<open>floor_log10_eq_log\<close>).
\<close>

definition floor_log10 :: "rat \<Rightarrow> int" where
  "floor_log10 x =
     (if 1 \<le> x then int (length (String_nat (nat \<lfloor>x\<rfloor>))) - 1
      else - int (length (String_nat (nat (\<lceil>1 / x\<rceil> - 1)))))"

text \<open>\<^verbatim>\<open>Math.round\<close>: halves go up.\<close>

definition Math_round :: "rat \<Rightarrow> int" where
  "Math_round x = \<lfloor>x + 1 / 2\<rfloor>"

text \<open>
  \<^verbatim>\<open>str.slice(begin, end)\<close> and \<^verbatim>\<open>str.slice(begin)\<close>: a negative index counts from
  the end, and both are clamped to the string.
\<close>

definition slice :: "jsstring \<Rightarrow> int \<Rightarrow> int \<Rightarrow> jsstring" where
  "slice str b e =
     (let n = int (length str);
          from = (if b < 0 then max (n + b) 0 else min b n);
          to = (if e < 0 then max (n + e) 0 else min e n)
      in take (nat (to - from)) (drop (nat from) str))"

definition slice_from :: "jsstring \<Rightarrow> int \<Rightarrow> jsstring" where
  "slice_from str b = slice str b (int (length str))"

text \<open>
  \<^verbatim>\<open>Number.parseFloat\<close> on what \<^verbatim>\<open>toRound\<close> builds: an optional minus sign, digits,
  and an optional point with digits; the longest such prefix is read, and \<open>NaN\<close> is the
  result when it holds no digit.
\<close>

definition parseFloat :: "jsstring \<Rightarrow> number" where
  "parseFloat str =
     (let neg = (str \<noteq> [] \<and> hd str = minus_sign);
          body = (if neg then tl str else str);
          ip = takeWhile is_digit body;
          r = dropWhile is_digit body;
          fp = (case r of [] \<Rightarrow> [] | c # f \<Rightarrow> if c = dot then takeWhile is_digit f else []);
          v = of_nat (digits_value ip) + of_nat (digits_value fp) / 10 ^ length fp
      in if ip = [] \<and> fp = [] then NaN else Num (if neg then - v else v))"

text \<open>
  \<^verbatim>\<open>toRound(origin, bits)\<close>. For \<open>origin = 0\<close> the logarithm is \<^verbatim>\<open>-Infinity\<close>, the
  second branch asks for \<^verbatim>\<open>'0'.repeat(Infinity)\<close>, and that throws a
  \<^verbatim>\<open>RangeError\<close>. \<^verbatim>\<open>String\<close> of the rounded integer is its decimal digits (as it is
  below \<open>10\<^sup>2\<^sup>1\<close>).
\<close>

definition toRound :: "number \<Rightarrow> int \<Rightarrow> error + number" where
  "toRound origin bits =
     (case origin of
        NaN \<Rightarrow> Inl CannotRunToRoundOnNaN
      | Num q \<Rightarrow>
          if q = 0 then Inl RangeError
          else
            (let value = \<bar>q\<bar>;
                 toInt = floor_log10 value - bits + 1;
                 transform = 10 powi toInt;
                 round = String_nat (nat (Math_round (value / transform)));
                 sign = (if q < 0 then js ''-'' else []);
                 str = (if toInt > 0 then round @ replicate (nat toInt) zero_char
                        else if - toInt \<ge> bits
                        then js ''0.'' @ replicate (nat (- toInt - bits)) zero_char @ round
                        else slice round 0 toInt @ js ''.'' @ slice_from round toInt)
             in Inr (parseFloat (sign @ str))))"

chapter \<open>What the callers must respect, and concrete instances\<close>

section \<open>Consistent registries, admissible calls\<close>

text \<open>
  The registry is consistent when the ids of the registered instances are pairwise
  distinct, each of them is marked used, and each instance is in the array of its type.
\<close>

definition consistent :: "state \<Rightarrow> bool" where
  "consistent s =
     (distinct (live_ids s)
      \<and> list_all (\<lambda>r. hasId (id' (heap s r)) s) (live s)
      \<and> list_all (\<lambda>r. type' (heap s r) \<noteq> Line) (PartComponents s)
      \<and> list_all (\<lambda>r. type' (heap s r) = Line) (LineComponents s))"

text \<open>
  What the module leaves to its callers: \<^verbatim>\<open>created\<close> runs on an instance that is not
  registered and whose id, when the caller chose one, is not marked used;
  \<^verbatim>\<open>beforeDestroy\<close> and a rename run on a registered instance; a rename's new id is not
  marked used.
\<close>

fun admissible :: "op \<Rightarrow> state \<Rightarrow> bool" where
  "admissible (CreateEntity this) s =
     (this \<notin> set (live s) \<and> (id' (heap s this) = [] \<or> \<not> hasId (id' (heap s this)) s))"
| "admissible (DestroyEntity this) s = (this \<in> set (live s))"
| "admissible (RenameEntity this newId) s = (this \<in> set (live s) \<and> \<not> hasId newId s)"

fun admissible_run :: "(PartType \<Rightarrow> jsstring) \<Rightarrow> op list \<Rightarrow> state \<Rightarrow> bool" where
  "admissible_run pre [] s = True"
| "admissible_run pre (c # cs) s =
     (admissible c s \<and>
      (case step pre c s of Some (Inr s') \<Rightarrow> admissible_run pre cs s' | _ \<Rightarrow> True))"

text \<open>The tail of \<^verbatim>\<open>created\<close>, once the id is chosen.\<close>

definition register :: "ref \<Rightarrow> jsstring \<Rightarrow> state \<Rightarrow> state" where
  "register this i s =
     (let s1 = markId i (s\<lparr>heap := (heap s)(this := (heap s this)\<lparr>id' := i\<rparr>)\<rparr>)
      in case type' (heap s this) of
           Line \<Rightarrow> s1\<lparr>LineComponents := LineComponents s1 @ [this]\<rparr>
         | Part t \<Rightarrow> s1\<lparr>PartComponents := PartComponents s1 @ [this]\<rparr>)"

section \<open>Instances for the examples\<close>

text \<open>
  A catalog in which every part type has the prefix \<open>R\<close>. Instances that ask for an id:
  instance 2 is a wire, the others are parts. Parts that all bring the id \<open>R_1\<close>.
\<close>

definition catalog_R :: "PartType \<Rightarrow> jsstring" where
  "catalog_R t = js ''R''"

definition heap_fresh :: "ref \<Rightarrow> ElectronicCore" where
  "heap_fresh r = new_instance\<lparr>type' := (if r = 2 then Line else Part 0), el := r\<rparr>"

definition heap_same_id :: "ref \<Rightarrow> ElectronicCore" where
  "heap_same_id r = new_instance\<lparr>id' := js ''R_1'', type' := Part 0, el := r\<rparr>"

text \<open>A wire that asks for an id, and parts that bring the id \<open>line_1\<close> with them.\<close>

definition heap_wire_and_part :: "ref \<Rightarrow> ElectronicCore" where
  "heap_wire_and_part r =
     (if r = 0 then \<lparr>id' = [], connect = [], type' = Line, el = r\<rparr>
      else \<lparr>id' = js ''line_1'', connect = [], type' = Part 0, el = r\<rparr>)"

text \<open>A part and a wire that both ask for an id: they are allotted \<open>R_1\<close> and \<open>line_1\<close>.\<close>

definition heap_part_and_wire :: "ref \<Rightarrow> ElectronicCore" where
  "heap_part_and_wire r = \<lparr>id' = [], connect = [], type' = (if r = 0 then Part 0 else Line), el = r\<rparr>"

definition part_and_wire :: state where
  "part_and_wire = last (trace catalog_R [CreateEntity 0, CreateEntity 1] (init heap_part_and_wire))"

chapter \<open>Properties\<close>

section \<open>The identifier table\<close>

lemma proto_inherited: "js ''__proto__'' \<in> set Object_prototype"
  by (simp add: Object_prototype_def)

lemma hasId_inherited: "k \<in> set Object_prototype \<Longrightarrow> hasId k s"
  by (simp add: hasId_def truthy_def)

lemma hasId_markId: "hasId k (markId i s) = (k = i \<or> hasId k s)"
  using proto_inherited by (auto simp: hasId_def markId_def truthy_def)

lemma hasId_deleteId:
  "hasId k (snd (deleteId i s)) = ((k \<noteq> i \<or> k \<in> set Object_prototype) \<and> hasId k s)"
  by (auto simp: hasId_def deleteId_def truthy_def)

lemma changeId_eq: "changeId newId oldId s = snd (deleteId oldId (markId newId s))"
  by (simp add: changeId_def changeId_states_def Let_def)

lemma hasId_changeId:
  "hasId k (changeId newId oldId s)
     = ((k \<noteq> oldId \<or> k \<in> set Object_prototype) \<and> (k = newId \<or> hasId k s))"
  by (simp add: changeId_eq hasId_deleteId hasId_markId)

lemma hasId_init: "hasId k (init h) = (k \<in> set Object_prototype)"
  by (simp add: hasId_def init_def truthy_def)

lemma hasId_fold_markId: "hasId k (fold markId xs s) = (k \<in> set xs \<or> hasId k s)"
  by (induction xs arbitrary: s) (auto simp: hasId_markId)

lemma finite_fold_markId:
  "finite (dom (mapHash s)) \<Longrightarrow> finite (dom (mapHash (fold markId xs s)))"
  by (induction xs arbitrary: s) (auto simp: markId_def)

lemmas run_simps =
  created_def beforeDestroy_def rename_def changeId_def changeId_states_def markId_def
  deleteId_def hasId_def truthy_def Object_prototype_def init_def live_def live_ids_def Let_def
  createId_def createId_match_def createId_loop.simps candidate_def String_nat.simps
  digit_char_def underscore_def js_def maxNumber_def new_instance_def

lemmas match_simps =
  js_def id_match_here_def is_letter_def is_alnum_def is_digit_def underscore_def

section \<open>createId\<close>

lemma String_nat_not_Nil: "String_nat n \<noteq> []"
  by (subst String_nat.simps) simp

lemma digit_char_inj: "a < 10 \<Longrightarrow> b < 10 \<Longrightarrow> digit_char a = digit_char b \<Longrightarrow> a = b"
  unfolding digit_char_def
  by (simp add: word_of_nat_eq_iff take_bit_nat_eq_self)

lemma String_nat_inj: "String_nat n = String_nat m \<Longrightarrow> n = m"
proof (induction n arbitrary: m rule: String_nat.induct)
  case (1 n)
  show ?case
  proof (cases "n < 10")
    case n: True
    show ?thesis
    proof (cases "m < 10")
      case True
      with n "1.prems" show ?thesis
        by (simp add: String_nat.simps [of n] String_nat.simps [of m] digit_char_inj)
    next
      case False
      with n "1.prems" String_nat_not_Nil [of "m div 10"] show ?thesis
        by (simp add: String_nat.simps [of n] String_nat.simps [of m])
    qed
  next
    case n: False
    show ?thesis
    proof (cases "m < 10")
      case True
      with n "1.prems" String_nat_not_Nil [of "n div 10"] show ?thesis
        by (simp add: String_nat.simps [of n] String_nat.simps [of m])
    next
      case False
      with n "1.prems" have eq: "String_nat (n div 10) = String_nat (m div 10)"
        and d: "digit_char (n mod 10) = digit_char (m mod 10)"
        by (simp_all add: String_nat.simps [of n] String_nat.simps [of m])
      from "1.IH" [OF n eq] have "n div 10 = m div 10" .
      moreover from d have "n mod 10 = m mod 10"
        by (rule digit_char_inj [rotated 2]) simp_all
      ultimately show ?thesis
        by (metis div_mult_mod_eq)
    qed
  qed
qed

lemma candidate_inj: "candidate p n = candidate p m \<Longrightarrow> n = m"
  by (simp add: candidate_def String_nat_inj)

lemma candidate_mem_iff: "candidate p n \<in> candidate p ` A \<longleftrightarrow> n \<in> A"
  by (auto dest: candidate_inj)

text \<open>A candidate ends with a digit, and none of the inherited names does.\<close>

lemma is_digit_digit_char: "d < 10 \<Longrightarrow> is_digit (digit_char d)"
proof -
  assume "d < 10"
  then have "d \<in> {0, 1, 2, 3, 4, 5, 6, 7, 8, 9}"
    by auto
  then show ?thesis
    by (auto simp: is_digit_def digit_char_def)
qed

lemma last_String_nat: "last (String_nat n) = digit_char (n mod 10)"
  by (subst String_nat.simps) simp

lemma candidate_not_inherited: "candidate p n \<notin> set Object_prototype"
proof
  assume "candidate p n \<in> set Object_prototype"
  moreover have "\<forall>x\<in>set Object_prototype. \<not> is_digit (last x)"
    by (simp add: Object_prototype_def js_def is_digit_def)
  ultimately have "\<not> is_digit (last (candidate p n))"
    by blast
  moreover have "last (candidate p n) = digit_char (n mod 10)"
    by (simp add: candidate_def last_String_nat String_nat_not_Nil)
  ultimately show False
    using is_digit_digit_char [of "n mod 10"] by simp
qed

lemma createId_loop_first_free:
  assumes "i \<le> n" and "enat n \<le> mx"
    and "\<not> truthy (mapHash s) (candidate p n)"
    and "\<forall>k. i \<le> k \<and> k < n \<longrightarrow> truthy (mapHash s) (candidate p k)"
  shows "createId_loop s p mx i = Some (Inr (candidate p n))"
  using assms
proof (induction "n - i" arbitrary: i)
  case 0
  then have "i = n" by simp
  with 0 show ?case
    by (subst createId_loop.simps) simp
next
  case (Suc d)
  then have lt: "i < n" by simp
  with Suc.prems have used: "truthy (mapHash s) (candidate p i)" by simp
  from lt Suc.prems(2) have le: "enat i \<le> mx"
    by (meson enat_ord_simps(1) less_imp_le order_trans)
  have "createId_loop s p mx (i + 1) = Some (Inr (candidate p n))"
  proof (rule Suc.hyps(1))
    show "d = n - (i + 1)" using Suc.hyps(2) by simp
    show "i + 1 \<le> n" using lt by simp
    show "enat n \<le> mx" by fact
    show "\<not> truthy (mapHash s) (candidate p n)" by fact
    show "\<forall>k. i + 1 \<le> k \<and> k < n \<longrightarrow> truthy (mapHash s) (candidate p k)"
      using Suc.prems(4) by simp
  qed
  with used le show ?case
    by (subst createId_loop.simps) simp
qed

lemma createId_loop_full:
  assumes "\<forall>k. i \<le> k \<and> k \<le> m \<longrightarrow> truthy (mapHash s) (candidate p k)"
  shows "createId_loop s p (enat m) i = Some (Inl MaximumNumberOfDevices)"
  using assms
proof (induction "Suc m - i" arbitrary: i)
  case 0
  then have "\<not> i \<le> m" by simp
  then show ?case
    by (subst createId_loop.simps) simp
next
  case (Suc d)
  then have le: "i \<le> m" by simp
  with Suc.prems have used: "truthy (mapHash s) (candidate p i)" by simp
  have "createId_loop s p (enat m) (i + 1) = Some (Inl MaximumNumberOfDevices)"
  proof (rule Suc.hyps(1))
    show "d = Suc m - (i + 1)" using Suc.hyps(2) by simp
    show "\<forall>k. i + 1 \<le> k \<and> k \<le> m \<longrightarrow> truthy (mapHash s) (candidate p k)"
      using Suc.prems by simp
  qed
  with used le show ?case
    by (subst createId_loop.simps) simp
qed

lemma free_candidate_exists:
  assumes "finite (dom m)"
  shows "\<exists>n\<ge>1. \<not> truthy m (candidate p n)"
proof (rule ccontr)
  assume "\<not> ?thesis"
  then have "candidate p ` {1..} \<subseteq> dom m \<union> set Object_prototype"
    by (auto simp: truthy_def)
  moreover from assms have "finite (dom m \<union> set Object_prototype)"
    by simp
  ultimately have "finite (candidate p ` {1..})"
    by (rule finite_subset)
  moreover have "inj_on (candidate p) {1..}"
    by (rule inj_onI) (rule candidate_inj)
  ultimately have "finite {1::nat..}"
    by (rule finite_imageD)
  then show False
    by (simp add: infinite_Ici)
qed

lemma first_free_candidate:
  assumes "finite (dom m)"
  shows "\<exists>n\<ge>1. \<not> truthy m (candidate p n) \<and> (\<forall>k. 1 \<le> k \<and> k < n \<longrightarrow> truthy m (candidate p k))"
proof -
  define P where "P n = (1 \<le> n \<and> \<not> truthy m (candidate p n))" for n
  from free_candidate_exists [OF assms] have "\<exists>n. P n"
    by (auto simp: P_def)
  then have "P (LEAST n. P n)" and "\<And>k. k < (LEAST n. P n) \<Longrightarrow> \<not> P k"
    by (auto intro: LeastI dest: not_less_Least)
  then show ?thesis
    unfolding P_def by blast
qed

lemma createId_loop_result:
  assumes "createId_loop s p mx i = Some y"
  shows "\<forall>a. y = Inr a \<longrightarrow> \<not> truthy (mapHash s) a"
proof (rule createId_loop.raw_induct
    [where P = "\<lambda>s p mx i y. \<forall>a. y = Inr a \<longrightarrow> \<not> truthy (mapHash s) a", OF _ assms])
  fix f s p mx i y
  assume "\<And>s p mx i y. f s p mx i = Some y \<Longrightarrow> \<forall>a. y = Inr a \<longrightarrow> \<not> truthy (mapHash s) a"
    and "(if enat i \<le> mx
          then if \<not> truthy (mapHash s) (candidate p i) then Some (Inr (candidate p i))
               else f s p mx (i + 1)
          else Some (Inl MaximumNumberOfDevices)) = Some y"
  then show "\<forall>a. y = Inr a \<longrightarrow> \<not> truthy (mapHash s) a"
    by (auto split: if_splits)
qed

lemma createId_loop_unused:
  "createId_loop s p mx i = Some (Inr a) \<Longrightarrow> \<not> truthy (mapHash s) a"
  using createId_loop_result by blast

lemma createId_unused: "createId p s = Some (Inr a) \<Longrightarrow> \<not> hasId a s"
  by (auto simp: createId_def hasId_def split: option.splits dest: createId_loop_unused)

lemma createId_returns_first:
  assumes "createId_match i = Some p"
    and "1 \<le> n" and "p = js ''line'' \<or> n \<le> 50"
    and "\<not> hasId (candidate p n) s"
    and "\<forall>k. 1 \<le> k \<and> k < n \<longrightarrow> hasId (candidate p k) s"
  shows "createId i s = Some (Inr (candidate p n))"
proof -
  from assms(3) have "enat n \<le> (if p = js ''line'' then \<infinity> else enat maxNumber)"
    by (auto simp: maxNumber_def)
  with assms(2,4,5)
  have "createId_loop s p (if p = js ''line'' then \<infinity> else enat maxNumber) 1
      = Some (Inr (candidate p n))"
    by (intro createId_loop_first_free) (auto simp: hasId_def)
  with assms(1) show ?thesis
    by (simp add: createId_def)
qed

lemma createId_throws_when_full:
  assumes "createId_match i = Some p" and "p \<noteq> js ''line''"
    and "\<forall>k. 1 \<le> k \<and> k \<le> 50 \<longrightarrow> hasId (candidate p k) s"
  shows "createId i s = Some (Inl MaximumNumberOfDevices)"
proof -
  from assms(3) have "createId_loop s p (enat 50) 1 = Some (Inl MaximumNumberOfDevices)"
    by (intro createId_loop_full) (auto simp: hasId_def)
  with assms(1,2) show ?thesis
    by (simp add: createId_def maxNumber_def)
qed

lemma createId_line_returns:
  assumes "createId_match i = Some (js ''line'')" and "finite (dom (mapHash s))"
  shows "\<exists>n\<ge>1. createId i s = Some (Inr (candidate (js ''line'') n))"
proof -
  from first_free_candidate [OF assms(2), of "js ''line''"]
  obtain n where n: "1 \<le> n" "\<not> hasId (candidate (js ''line'') n) s"
    "\<forall>k. 1 \<le> k \<and> k < n \<longrightarrow> hasId (candidate (js ''line'') k) s"
    unfolding hasId_def by blast
  with assms(1) have "createId i s = Some (Inr (candidate (js ''line'') n))"
    by (intro createId_returns_first) auto
  with n(1) show ?thesis
    by blast
qed

text \<open>
  Claim C2. \<^verbatim>\<open>createId\<close> returns the first candidate \<open>prefix_n\<close>, counting from 1,
  that is not marked used: within 1..50 for every prefix other than \<open>line\<close>, without a
  bound for \<open>line\<close>. When all of 1..50 are used it throws for a part prefix; for \<open>line\<close>
  it always returns an id (the table is finite). So with 49 ids of a prefix in use the
  50th is allotted, and with 50 in use the next call throws.
\<close>

theorem createId_first_free:
  assumes "createId_match i = Some p"
  shows "(1 \<le> n \<and> (p = js ''line'' \<or> n \<le> 50) \<and> \<not> hasId (candidate p n) s
            \<and> (\<forall>k. 1 \<le> k \<and> k < n \<longrightarrow> hasId (candidate p k) s)
          \<longrightarrow> createId i s = Some (Inr (candidate p n)))
       \<and> (p \<noteq> js ''line'' \<and> (\<forall>k. 1 \<le> k \<and> k \<le> 50 \<longrightarrow> hasId (candidate p k) s)
          \<longrightarrow> createId i s = Some (Inl MaximumNumberOfDevices))
       \<and> (p = js ''line'' \<and> finite (dom (mapHash s))
          \<longrightarrow> (\<exists>n\<ge>1. createId i s = Some (Inr (candidate p n))))"
  using assms createId_returns_first [of i p n s] createId_throws_when_full [of i p s]
    createId_line_returns [of i s]
  by blast

theorem createId_first_free_witness:
  "createId_match (js ''R'') = Some (js ''R'')
   \<and> createId (js ''R'') (fold markId (map (candidate (js ''R'')) [1..<50]) (init heap_fresh))
       = Some (Inr (js ''R_50''))
   \<and> createId (js ''R'') (fold markId (map (candidate (js ''R'')) [1..<51]) (init heap_fresh))
       = Some (Inl MaximumNumberOfDevices)
   \<and> createId_match (js ''line'') = Some (js ''line'')
   \<and> createId (js ''line'') (fold markId (map (candidate (js ''line'')) [1..<1001]) (init heap_fresh))
       = Some (Inr (js ''line_1001''))
   \<and> finite (dom (mapHash (fold markId (map (candidate (js ''line'')) [1..<1001]) (init heap_fresh))))
   \<and> (\<exists>n\<ge>1. createId (js ''line'') (fold markId (map (candidate (js ''line'')) [1..<1001]) (init heap_fresh))
       = Some (Inr (candidate (js ''line'') n)))"
proof -
  have mR: "createId_match (js ''R'') = Some (js ''R'')"
    by (simp add: createId_match_def js_def underscore_def)
  have mL: "createId_match (js ''line'') = Some (js ''line'')"
    by (simp add: createId_match_def js_def underscore_def)
  have ne: "js ''R'' \<noteq> js ''line''"
    by (simp add: js_def)
  have c50: "candidate (js ''R'') 50 = js ''R_50''"
    by (simp add: candidate_def js_def underscore_def String_nat.simps digit_char_def)
  have c1001: "candidate (js ''line'') 1001 = js ''line_1001''"
    by (simp add: candidate_def js_def underscore_def String_nat.simps digit_char_def)
  have fin: "finite (dom (mapHash (fold markId (map (candidate (js ''line'')) [1..<1001]) (init heap_fresh))))"
    by (simp add: finite_fold_markId init_def)
  from createId_first_free [OF mR, of 50 "fold markId (map (candidate (js ''R'')) [1..<50]) (init heap_fresh)"]
  have "createId (js ''R'') (fold markId (map (candidate (js ''R'')) [1..<50]) (init heap_fresh))
       = Some (Inr (candidate (js ''R'') 50))"
    by (simp add: hasId_fold_markId hasId_init candidate_mem_iff candidate_not_inherited)
  then have a: "createId (js ''R'') (fold markId (map (candidate (js ''R'')) [1..<50]) (init heap_fresh))
       = Some (Inr (js ''R_50''))"
    by (simp only: c50)
  from createId_first_free [OF mR, of _ "fold markId (map (candidate (js ''R'')) [1..<51]) (init heap_fresh)"]
  have b: "createId (js ''R'') (fold markId (map (candidate (js ''R'')) [1..<51]) (init heap_fresh))
       = Some (Inl MaximumNumberOfDevices)"
    by (simp add: hasId_fold_markId hasId_init candidate_mem_iff candidate_not_inherited ne)
  from createId_first_free [OF mL, of 1001 "fold markId (map (candidate (js ''line'')) [1..<1001]) (init heap_fresh)"]
  have c': "createId (js ''line'') (fold markId (map (candidate (js ''line'')) [1..<1001]) (init heap_fresh))
       = Some (Inr (candidate (js ''line'') 1001))"
    and d: "\<exists>n\<ge>1. createId (js ''line'') (fold markId (map (candidate (js ''line'')) [1..<1001]) (init heap_fresh))
       = Some (Inr (candidate (js ''line'') n))"
    using fin
    by (auto simp add: hasId_fold_markId hasId_init candidate_mem_iff candidate_not_inherited)
  from c' have c: "createId (js ''line'') (fold markId (map (candidate (js ''line'')) [1..<1001]) (init heap_fresh))
       = Some (Inr (js ''line_1001''))"
    by (simp only: c1001)
  from mR a b mL c fin d show ?thesis
    by blast
qed

section \<open>The registries along a sequence of calls\<close>

lemma consistent_init: "consistent (init h)"
  by (simp add: consistent_def init_def live_ids_def live_def)

lemma delete_first_own:
  assumes "distinct (map f xs)" and "x \<in> set xs"
  shows "delete_first (\<lambda>y. f y = f x) xs = remove1 x xs"
  using assms by (induction xs) (auto simp: rev_image_eqI)

lemma created_result:
  assumes "created pre this s = Some (Inr s')"
    and "id' (heap s this) = [] \<or> \<not> hasId (id' (heap s this)) s"
  shows "\<exists>i. \<not> hasId i s \<and> s' = register this i s"
proof (cases "id' (heap s this) = []")
  case True
  with assms(1) obtain i
    where "createId (case type' (heap s this) of Line \<Rightarrow> js ''line'' | Part t \<Rightarrow> pre t) s = Some (Inr i)"
      and "s' = register this i s"
    by (auto simp: created_def register_def Let_def split: option.splits sum.splits)
  then show ?thesis
    by (auto dest: createId_unused)
next
  case False
  with assms show ?thesis
    by (intro exI [of _ "id' (heap s this)"]) (auto simp: created_def register_def Let_def)
qed

lemma register_fields:
  "heap (register this i s) = (heap s)(this := (heap s this)\<lparr>id' := i\<rparr>)"
  "hasId k (register this i s) = (k = i \<or> hasId k s)"
  "type' (heap s this) = Line \<Longrightarrow> LineComponents (register this i s) = LineComponents s @ [this]"
  "type' (heap s this) = Line \<Longrightarrow> PartComponents (register this i s) = PartComponents s"
  "type' (heap s this) \<noteq> Line \<Longrightarrow> PartComponents (register this i s) = PartComponents s @ [this]"
  "type' (heap s this) \<noteq> Line \<Longrightarrow> LineComponents (register this i s) = LineComponents s"
  using proto_inherited
  by (auto simp: register_def markId_def hasId_def truthy_def Let_def split: ElecType.splits)

text \<open>
  The same for \<^verbatim>\<open>created\<close> on an instance that asks for an id: it registers the
  instance under the first free candidate of its prefix, and throws when a part prefix
  has none among 1..50.
\<close>

lemma created_allocates:
  assumes "id' (heap s this) = []"
    and "createId_match (case type' (heap s this) of Line \<Rightarrow> js ''line'' | Part t \<Rightarrow> pre t) = Some p"
  shows "1 \<le> n \<Longrightarrow> p = js ''line'' \<or> n \<le> 50 \<Longrightarrow> \<not> hasId (candidate p n) s \<Longrightarrow>
           \<forall>k. 1 \<le> k \<and> k < n \<longrightarrow> hasId (candidate p k) s \<Longrightarrow>
           created pre this s = Some (Inr (register this (candidate p n) s))"
    and "p \<noteq> js ''line'' \<Longrightarrow> \<forall>k. 1 \<le> k \<and> k \<le> 50 \<longrightarrow> hasId (candidate p k) s \<Longrightarrow>
           created pre this s = Some (Inl MaximumNumberOfDevices)"
  using assms createId_returns_first [OF assms(2), of n s] createId_throws_when_full [OF assms(2), of s]
  by (simp_all add: created_def register_def Let_def)

lemma created_consistent:
  assumes c: "consistent s" and a: "admissible (CreateEntity this) s"
    and r: "created pre this s = Some (Inr s')"
  shows "consistent s'"
proof -
  from a have nl: "this \<notin> set (live s)"
    and fresh: "id' (heap s this) = [] \<or> \<not> hasId (id' (heap s this)) s"
    by simp_all
  from created_result [OF r fresh] obtain i where i: "\<not> hasId i s"
    and s': "s' = register this i s"
    by blast
  from s' have h: "heap s' = (heap s)(this := (heap s this)\<lparr>id' := i\<rparr>)"
    and m: "\<And>k. hasId k s' = (k = i \<or> hasId k s)"
    and L: "type' (heap s this) = Line \<Longrightarrow>
           LineComponents s' = LineComponents s @ [this] \<and> PartComponents s' = PartComponents s"
    and P: "type' (heap s this) \<noteq> Line \<Longrightarrow>
           PartComponents s' = PartComponents s @ [this] \<and> LineComponents s' = LineComponents s"
    by (simp_all add: register_fields)
  from c i have notin: "i \<notin> set (live_ids s)"
    by (auto simp: consistent_def live_ids_def list_all_iff)
  have same: "\<And>r. r \<in> set (live s) \<Longrightarrow> heap s' r = heap s r"
    using nl h by auto
  have ids: "map (\<lambda>r. id' (heap s' r)) (live s) = map (\<lambda>r. id' (heap s r)) (live s)"
    using same by simp
  have own: "id' (heap s' this) = i" "type' (heap s' this) = type' (heap s this)"
    using h by simp_all
  from c have "distinct (map (\<lambda>r. id' (heap s r)) (live s))"
    by (simp add: consistent_def live_ids_def)
  then have D: "distinct (map (\<lambda>r. id' (heap s' r)) (live s))"
    unfolding ids .
  from notin have N: "i \<notin> set (map (\<lambda>r. id' (heap s' r)) (live s))"
    unfolding ids live_ids_def .
  have l: "set (live s') = insert this (set (live s))"
    using L P by (cases "type' (heap s this) = Line") (auto simp: live_def)
  have "distinct (live_ids s')"
  proof (cases "type' (heap s this) = Line")
    case True
    with L have "live s' = live s @ [this]"
      by (simp add: live_def)
    with D N own show ?thesis
      by (simp add: live_ids_def)
  next
    case False
    with P have "live s' = PartComponents s @ this # LineComponents s"
      by (simp add: live_def)
    with D N own show ?thesis
      by (auto simp: live_ids_def live_def)
  qed
  moreover from c l same own m have "list_all (\<lambda>r. hasId (id' (heap s' r)) s') (live s')"
    by (auto simp: consistent_def list_all_iff)
  moreover from c L P same own have "list_all (\<lambda>r. type' (heap s' r) \<noteq> Line) (PartComponents s')"
    "list_all (\<lambda>r. type' (heap s' r) = Line) (LineComponents s')"
    by (cases "type' (heap s this) = Line"; auto simp: consistent_def list_all_iff live_def)+
  ultimately show ?thesis
    by (simp add: consistent_def)
qed

lemma distinct_map_remove1:
  assumes "distinct (map f xs)"
  shows "distinct (map f (remove1 x xs))"
proof -
  from assms have "distinct xs" and "inj_on f (set xs)"
    by (simp_all add: distinct_map)
  then have "distinct (remove1 x xs)" and "inj_on f (set (remove1 x xs))"
    by (simp_all add: inj_on_diff)
  then show ?thesis
    by (simp add: distinct_map)
qed

lemma map_remove1_notin:
  assumes "distinct (map f xs)" and "x \<in> set xs"
  shows "f x \<notin> f ` set (remove1 x xs)"
  using assms by (induction xs) (auto simp: rev_image_eqI)

lemma distinct_map_upd:
  assumes "distinct (map f xs)" and "y \<notin> f ` set xs"
  shows "distinct (map (f(x := y)) xs)"
  using assms by (induction xs) auto

lemma beforeDestroy_fields:
  "heap (beforeDestroy this s) = heap s"
  "hasId k (beforeDestroy this s)
     = ((k \<noteq> id' (heap s this) \<or> k \<in> set Object_prototype) \<and> hasId k s)"
  "type' (heap s this) = Line \<Longrightarrow> PartComponents (beforeDestroy this s) = PartComponents s"
  "type' (heap s this) = Line \<Longrightarrow> LineComponents (beforeDestroy this s) =
     delete_first (\<lambda>line. id' (heap s line) = id' (heap s this)) (LineComponents s)"
  "type' (heap s this) \<noteq> Line \<Longrightarrow> LineComponents (beforeDestroy this s) = LineComponents s"
  "type' (heap s this) \<noteq> Line \<Longrightarrow> PartComponents (beforeDestroy this s) =
     delete_first (\<lambda>part. id' (heap s part) = id' (heap s this)) (PartComponents s)"
  by (auto simp: beforeDestroy_def deleteId_def hasId_def truthy_def Let_def split: ElecType.splits)

lemma beforeDestroy_live:
  assumes c: "consistent s" and a: "this \<in> set (live s)"
  shows "live (beforeDestroy this s) = remove1 this (live s)"
proof -
  from c have d: "distinct (map (\<lambda>r. id' (heap s r)) (PartComponents s))"
    "distinct (map (\<lambda>r. id' (heap s r)) (LineComponents s))"
    and dl: "distinct (live s)"
    by (auto simp: consistent_def live_ids_def live_def distinct_map)
  show ?thesis
  proof (cases "type' (heap s this) = Line")
    case True
    with c a have in_l: "this \<in> set (LineComponents s)" and out_p: "this \<notin> set (PartComponents s)"
      by (auto simp: consistent_def live_def list_all_iff)
    with True d delete_first_own [of "\<lambda>r. id' (heap s r)" "LineComponents s" this]
    show ?thesis
      by (simp add: live_def beforeDestroy_fields remove1_append)
  next
    case False
    with c a have in_p: "this \<in> set (PartComponents s)"
      by (auto simp: consistent_def live_def list_all_iff)
    with False d delete_first_own [of "\<lambda>r. id' (heap s r)" "PartComponents s" this]
    show ?thesis
      by (simp add: live_def beforeDestroy_fields remove1_append)
  qed
qed

lemma beforeDestroy_consistent:
  assumes c: "consistent s" and a: "admissible (DestroyEntity this) s"
  shows "consistent (beforeDestroy this s)"
proof -
  let ?s' = "beforeDestroy this s"
  let ?f = "\<lambda>r. id' (heap s r)"
  from a have lv: "this \<in> set (live s)" by simp
  from c have d: "distinct (map ?f (live s))"
    by (simp add: consistent_def live_ids_def)
  have l: "live ?s' = remove1 this (live s)"
    using c lv by (rule beforeDestroy_live)
  have "distinct (live_ids ?s')"
    using d by (simp add: live_ids_def l beforeDestroy_fields distinct_map_remove1)
  moreover have "list_all (\<lambda>r. hasId (id' (heap ?s' r)) ?s') (live ?s')"
  proof -
    have "?f this \<notin> ?f ` set (remove1 this (live s))"
      using d lv by (rule map_remove1_notin)
    moreover from c have "\<forall>r\<in>set (remove1 this (live s)). hasId (?f r) s"
      by (auto simp: consistent_def list_all_iff dest: notin_set_remove1)
    ultimately show ?thesis
      unfolding list_all_iff l beforeDestroy_fields by (metis imageI)
  qed
  moreover have "list_all (\<lambda>r. type' (heap ?s' r) \<noteq> Line) (PartComponents ?s')"
    "list_all (\<lambda>r. type' (heap ?s' r) = Line) (LineComponents ?s')"
  proof -
    have sub: "set (delete_first P xs) \<subseteq> set xs" for P and xs :: "ref list"
      by (induction xs) auto
    from c show "list_all (\<lambda>r. type' (heap ?s' r) \<noteq> Line) (PartComponents ?s')"
      by (cases "type' (heap s this) = Line")
        (auto simp: consistent_def list_all_iff beforeDestroy_fields dest!: sub [THEN subsetD])
    from c show "list_all (\<lambda>r. type' (heap ?s' r) = Line) (LineComponents ?s')"
      by (cases "type' (heap s this) = Line")
        (auto simp: consistent_def list_all_iff beforeDestroy_fields dest!: sub [THEN subsetD])
  qed
  ultimately show ?thesis
    by (simp add: consistent_def)
qed

lemma rename_fields:
  "heap (rename this newId s) = (heap s)(this := (heap s this)\<lparr>id' := newId\<rparr>)"
  "hasId k (rename this newId s)
     = (if newId = id' (heap s this) then hasId k s
        else (k \<noteq> id' (heap s this) \<or> k \<in> set Object_prototype) \<and> (k = newId \<or> hasId k s))"
  "PartComponents (rename this newId s) = PartComponents s"
  "LineComponents (rename this newId s) = LineComponents s"
  using proto_inherited
  by (auto simp: rename_def changeId_eq deleteId_def markId_def hasId_def truthy_def)

lemma rename_consistent:
  assumes c: "consistent s" and a: "admissible (RenameEntity this newId) s"
  shows "consistent (rename this newId s)"
proof -
  let ?s' = "rename this newId s"
  let ?f = "\<lambda>r. id' (heap s r)"
  from a have lv: "this \<in> set (live s)" and fresh: "\<not> hasId newId s" by simp_all
  from c have d: "distinct (map ?f (live s))" and used: "\<forall>r\<in>set (live s). hasId (?f r) s"
    by (simp_all add: consistent_def live_ids_def list_all_iff)
  from used fresh have notin: "newId \<notin> ?f ` set (live s)"
    by auto
  with lv have ne: "newId \<noteq> ?f this"
    by auto
  have f': "(\<lambda>r. id' (heap ?s' r)) = ?f(this := newId)"
    by (auto simp: rename_fields)
  have l: "live ?s' = live s"
    by (simp add: live_def rename_fields)
  have "distinct (live_ids ?s')"
    unfolding live_ids_def l f' using d notin by (rule distinct_map_upd)
  moreover have "list_all (\<lambda>r. hasId (id' (heap ?s' r)) ?s') (live ?s')"
  proof -
    from d have "inj_on ?f (set (live s))"
      by (simp add: distinct_map)
    with lv have "\<forall>r\<in>set (live s). r \<noteq> this \<longrightarrow> ?f r \<noteq> ?f this"
      by (auto dest: inj_onD)
    with used lv fresh ne show ?thesis
      by (auto simp: list_all_iff l rename_fields)
  qed
  moreover from c have "list_all (\<lambda>r. type' (heap ?s' r) \<noteq> Line) (PartComponents ?s')"
    "list_all (\<lambda>r. type' (heap ?s' r) = Line) (LineComponents ?s')"
    by (auto simp: consistent_def list_all_iff rename_fields)
  ultimately show ?thesis
    by (simp add: consistent_def)
qed

lemma step_consistent:
  assumes "consistent s" and "admissible c s" and "step pre c s = Some (Inr s')"
  shows "consistent s'"
  using assms
  by (cases c) (auto intro: created_consistent beforeDestroy_consistent rename_consistent)

lemma trace_consistent:
  assumes "consistent s" and "admissible_run pre cs s"
  shows "\<forall>s'\<in>set (trace pre cs s). consistent s'"
  using assms
proof (induction cs arbitrary: s)
  case Nil
  then show ?case by simp
next
  case (Cons c cs)
  show ?case
  proof (cases "step pre c s")
    case None
    with Cons.prems show ?thesis by simp
  next
    case (Some r)
    show ?thesis
    proof (cases r)
      case (Inl e)
      with Some Cons.prems show ?thesis by simp
    next
      case (Inr s1)
      with Some Cons.prems have "consistent s1" and "admissible_run pre cs s1"
        by (auto intro: step_consistent)
      then have "\<forall>s'\<in>set (trace pre cs s1). consistent s'"
        by (rule Cons.IH)
      with Some Inr Cons.prems show ?thesis by simp
    qed
  qed
qed

text \<open>
  Claim C1, as amended. From the empty registries, along every sequence of calls in which
  each caller-chosen id (given at creation, or as the new id of a rename) is not marked
  used at that moment, the ids of the registered parts and wires are pairwise distinct in
  every state that can be observed.
\<close>

theorem live_ids_distinct:
  assumes "admissible_run pre cs (init h)"
  shows "\<forall>s\<in>set (trace pre cs (init h)). distinct (live_ids s)"
  using trace_consistent [OF consistent_init assms] by (auto simp: consistent_def)

text \<open>
  Claim C1 as stated fails: \<^verbatim>\<open>created\<close> takes a caller-chosen id without looking it
  up, and the watcher marks the new id of a rename without looking it up. Two parts
  created with the id \<open>R_1\<close>, or a part renamed to the id of another, leave two registered
  instances with one id.
\<close>

theorem live_ids_distinct_counterexample:
  "live_ids (last (trace catalog_R [CreateEntity 0, CreateEntity 1] (init heap_same_id)))
     = [js ''R_1'', js ''R_1'']
   \<and> \<not> distinct (live_ids (last (trace catalog_R [CreateEntity 0, CreateEntity 1]
                                     (init heap_same_id))))
   \<and> live_ids (last (trace catalog_R [CreateEntity 0, CreateEntity 1, RenameEntity 1 (js ''R_1'')]
                          (init heap_fresh)))
     = [js ''R_1'', js ''R_1'']
   \<and> \<not> distinct (live_ids (last (trace catalog_R
         [CreateEntity 0, CreateEntity 1, RenameEntity 1 (js ''R_1'')] (init heap_fresh))))"
  by (simp add: run_simps catalog_R_def heap_same_id_def heap_fresh_def)

theorem live_ids_distinct_witness:
  "admissible_run catalog_R
     [CreateEntity 0, CreateEntity 1, CreateEntity 2, RenameEntity 0 (js ''R_9''), DestroyEntity 1]
     (init heap_fresh)
   \<and> distinct (live_ids (last (trace catalog_R
     [CreateEntity 0, CreateEntity 1, CreateEntity 2, RenameEntity 0 (js ''R_9''), DestroyEntity 1]
     (init heap_fresh))))"
proof -
  have a: "admissible_run catalog_R
     [CreateEntity 0, CreateEntity 1, CreateEntity 2, RenameEntity 0 (js ''R_9''), DestroyEntity 1]
     (init heap_fresh)"
    by (simp add: run_simps catalog_R_def heap_fresh_def)
  have "trace catalog_R cs s \<noteq> []" for cs s
    by (cases cs) simp_all
  then have "last (trace catalog_R cs s) \<in> set (trace catalog_R cs s)" for cs s
    by (rule last_in_set)
  with live_ids_distinct [OF a] a show ?thesis
    by blast
qed

section \<open>An assignment to the id\<close>

text \<open>No property name of \<^verbatim>\<open>Object.prototype\<close> has the form of an identifier.\<close>

lemma id_form_not_inherited: "id_match t = Some t \<Longrightarrow> t \<notin> set Object_prototype"
proof
  assume "id_match t = Some t" and "t \<in> set Object_prototype"
  moreover have "\<forall>x\<in>set Object_prototype. id_match x \<noteq> Some x"
    by (simp add: Object_prototype_def match_simps)
  ultimately show False
    by blast
qed

lemma rename_states_changed:
  assumes "newId \<noteq> id' (heap s this)"
  shows "rename_states this newId s
       = [markId newId (s\<lparr>heap := (heap s)(this := (heap s this)\<lparr>id' := newId\<rparr>)\<rparr>),
          rename this newId s]"
  using assms by (simp add: rename_states_def rename_def changeId_states_def changeId_eq Let_def)

text \<open>
  Claim C6. A rename of an instance from its id \<open>A\<close> to another id \<open>B\<close> runs the watcher,
  which passes through two states. In the first of them \<open>B\<close> is marked used and \<open>A\<close> is
  as it was before, so the mark comes before the release and at no moment are both ids
  free. In the second state, which the rename leaves, \<open>B\<close> is marked used, \<open>A\<close> is not, no
  other id has changed, and the instance carries the id \<open>B\<close>. Here \<open>A\<close> is not one of
  the names inherited from \<^verbatim>\<open>Object.prototype\<close>, as no identifier is.
\<close>

theorem rename_marks_then_releases:
  assumes "id' (heap s this) = A" and "A \<noteq> B" and "A \<notin> set Object_prototype"
  shows "length (rename_states this B s) = 2
       \<and> list_all (hasId B) (rename_states this B s)
       \<and> hasId A (hd (rename_states this B s)) = hasId A s
       \<and> rename this B s = last (rename_states this B s)
       \<and> hasId B (rename this B s)
       \<and> \<not> hasId A (rename this B s)
       \<and> (\<forall>k. k \<noteq> A \<and> k \<noteq> B \<longrightarrow> hasId k (rename this B s) = hasId k s)
       \<and> id' (heap (rename this B s) this) = B"
proof -
  from assms(1,2) have ne: "B \<noteq> id' (heap s this)"
    by simp
  have st: "rename_states this B s
      = [markId B (s\<lparr>heap := (heap s)(this := (heap s this)\<lparr>id' := B\<rparr>)\<rparr>), rename this B s]"
    using ne by (rule rename_states_changed)
  have unchanged: "hasId k (s\<lparr>heap := h\<rparr>) = hasId k s" for k h
    by (simp add: hasId_def)
  from ne assms(1,3) have final: "hasId B (rename this B s)" "\<not> hasId A (rename this B s)"
    "\<forall>k. k \<noteq> A \<and> k \<noteq> B \<longrightarrow> hasId k (rename this B s) = hasId k s"
    by (auto simp: rename_fields)
  from assms(2) have first: "hasId B (hd (rename_states this B s))"
    "hasId A (hd (rename_states this B s)) = hasId A s"
    by (simp_all add: st hasId_markId unchanged)
  have "length (rename_states this B s) = 2"
    by (simp add: st)
  moreover from first(1) final(1) have "list_all (hasId B) (rename_states this B s)"
    by (simp add: st)
  moreover have "rename this B s = last (rename_states this B s)"
    by (simp add: st)
  moreover have "id' (heap (rename this B s) this) = B"
    by (simp add: rename_fields)
  ultimately show ?thesis
    using first(2) final by blast
qed

theorem rename_marks_then_releases_witness:
  "id' (heap (register 0 (js ''R_1'') (init heap_fresh)) 0) = js ''R_1''
   \<and> js ''R_1'' \<noteq> js ''R_2''
   \<and> js ''R_1'' \<notin> set Object_prototype
   \<and> hasId (js ''R_1'') (register 0 (js ''R_1'') (init heap_fresh))
   \<and> \<not> hasId (js ''R_2'') (register 0 (js ''R_1'') (init heap_fresh))
   \<and> list_all (hasId (js ''R_2'')) (rename_states 0 (js ''R_2'') (register 0 (js ''R_1'') (init heap_fresh)))
   \<and> hasId (js ''R_1'') (hd (rename_states 0 (js ''R_2'') (register 0 (js ''R_1'') (init heap_fresh))))
   \<and> hasId (js ''R_2'') (rename 0 (js ''R_2'') (register 0 (js ''R_1'') (init heap_fresh)))
   \<and> \<not> hasId (js ''R_1'') (rename 0 (js ''R_2'') (register 0 (js ''R_1'') (init heap_fresh)))
   \<and> id' (heap (rename 0 (js ''R_2'') (register 0 (js ''R_1'') (init heap_fresh))) 0) = js ''R_2''"
proof -
  let ?s = "register 0 (js ''R_1'') (init heap_fresh)"
  have i: "id' (heap ?s 0) = js ''R_1''"
    by (simp add: register_fields)
  have ne: "js ''R_1'' \<noteq> js ''R_2''"
    by (simp add: js_def)
  have own: "js ''R_1'' \<notin> set Object_prototype" "js ''R_2'' \<notin> set Object_prototype"
    by (simp_all add: Object_prototype_def js_def)
  from own ne have used: "hasId (js ''R_1'') ?s" "\<not> hasId (js ''R_2'') ?s"
    by (simp_all add: register_fields hasId_init)
  from rename_marks_then_releases [OF i ne own(1)] i ne own(1) used show ?thesis
    by blast
qed

text \<open>
  Claim C10 as stated fails. A part is created and allotted the id \<open>R_1\<close>; the
  assignment of \<open>R_1\<close> to its id changes nothing, the watcher is not called, and \<open>R_1\<close> is
  marked used as before.
\<close>

theorem rename_same_id_counterexample:
  "id' (heap (last (trace catalog_R [CreateEntity 0] (init heap_fresh))) 0) = js ''R_1''
   \<and> hasId (js ''R_1'') (last (trace catalog_R [CreateEntity 0] (init heap_fresh)))
   \<and> hasId (js ''R_1'')
       (last (trace catalog_R [CreateEntity 0, RenameEntity 0 (js ''R_1'')] (init heap_fresh)))"
  by (simp add: run_simps catalog_R_def heap_fresh_def)

text \<open>
  Claim C10, as amended. An assignment of its own id to an instance does not run the
  watcher: the state is the same afterwards, so an id that was marked used stays marked.
  It is the body of the watcher which, run with the same id \<open>A\<close> for the new and the old
  one, marks \<open>A\<close> and then releases the same key: after it \<open>A\<close> is marked used only
  when it is a name inherited from \<^verbatim>\<open>Object.prototype\<close>.
\<close>

theorem rename_same_id_unchanged:
  "rename this (id' (heap s this)) s = s
   \<and> rename_states this (id' (heap s this)) s = []
   \<and> hasId A (changeId A A s) = (A \<in> set Object_prototype)"
  by (simp add: rename_def rename_states_def hasId_changeId)

theorem rename_same_id_unchanged_witness:
  "id' (heap (register 0 (js ''R_1'') (init heap_fresh)) 0) = js ''R_1''
   \<and> rename 0 (js ''R_1'') (register 0 (js ''R_1'') (init heap_fresh))
       = register 0 (js ''R_1'') (init heap_fresh)
   \<and> hasId (js ''R_1'') (rename 0 (js ''R_1'') (register 0 (js ''R_1'') (init heap_fresh)))
   \<and> \<not> hasId (js ''R_1'')
         (changeId (js ''R_1'') (js ''R_1'') (register 0 (js ''R_1'') (init heap_fresh)))"
proof -
  let ?s = "register 0 (js ''R_1'') (init heap_fresh)"
  have i: "id' (heap ?s 0) = js ''R_1''"
    by (simp add: register_fields)
  have own: "js ''R_1'' \<notin> set Object_prototype"
    by (simp add: Object_prototype_def js_def)
  have used: "hasId (js ''R_1'') ?s"
    by (simp add: register_fields)
  from rename_same_id_unchanged [of 0 ?s "js ''R_1''"]
  have "rename 0 (js ''R_1'') ?s = ?s"
    and "hasId (js ''R_1'') (changeId (js ''R_1'') (js ''R_1'') ?s) = (js ''R_1'' \<in> set Object_prototype)"
    unfolding i by blast+
  with i own used show ?thesis
    by simp
qed

section \<open>Creation followed by destruction\<close>

lemma find_None_image:
  assumes "i \<notin> f ` set xs"
  shows "find (\<lambda>r. f r = i) xs = None"
  using assms by (auto simp: find_None_iff)

lemma find_Some_image:
  assumes "i \<in> f ` set xs"
  shows "\<exists>r\<in>set xs. find (\<lambda>r. f r = i) xs = Some r \<and> f r = i"
  using assms by (induction xs) auto

text \<open>
  Claim C7, as amended. Let the registries be consistent, and let \<^verbatim>\<open>created\<close> run on an
  instance that is not registered and whose id, if the caller chose it, is not marked
  used. After \<^verbatim>\<open>beforeDestroy\<close> on the same instance its id is not marked used, the
  wire lookup of the id throws its not-found error, and so does the part lookup when the
  id has the form \<open>letters_alphanumerics\<close>.
\<close>

theorem create_destroy_released:
  assumes c: "consistent s" and a: "admissible (CreateEntity this) s"
    and r: "created pre this s = Some (Inr s1)"
  shows "\<not> hasId (id' (heap s1 this)) (beforeDestroy this s1)
       \<and> findLineComponent (Str (id' (heap s1 this))) (beforeDestroy this s1)
           = Inl (CanNotFindThisLine (Str (id' (heap s1 this))))
       \<and> (id_match (id' (heap s1 this)) = Some (id' (heap s1 this)) \<longrightarrow>
            findPartComponent (Str (id' (heap s1 this))) (beforeDestroy this s1)
              = Inl (CanNotFindThisPart (Str (id' (heap s1 this)))))"
proof -
  let ?s2 = "beforeDestroy this s1"
  let ?i = "id' (heap s1 this)"
  let ?f = "\<lambda>r. id' (heap s1 r)"
  from c a r have c1: "consistent s1"
    by (rule created_consistent)
  from a have fresh: "id' (heap s this) = [] \<or> \<not> hasId (id' (heap s this)) s"
    by simp
  from created_result [OF r fresh] obtain i where i: "\<not> hasId i s"
    and s1: "s1 = register this i s"
    by blast
  from i have own: "i \<notin> set Object_prototype"
    by (auto dest: hasId_inherited)
  have lv: "this \<in> set (live s1)"
    unfolding s1 live_def
    by (cases "type' (heap s this) = Line") (simp_all add: register_fields)
  have l: "live ?s2 = remove1 this (live s1)"
    using c1 lv by (rule beforeDestroy_live)
  from c1 have "distinct (map ?f (live s1))"
    by (simp add: consistent_def live_ids_def)
  then have "?i \<notin> ?f ` set (remove1 this (live s1))"
    using lv by (rule map_remove1_notin)
  then have "?i \<notin> ?f ` set (live ?s2)"
    unfolding l .
  then have nP: "?i \<notin> ?f ` set (PartComponents ?s2)" and nL: "?i \<notin> ?f ` set (LineComponents ?s2)"
    by (auto simp: live_def)
  have 1: "\<not> hasId ?i ?s2"
    using own by (simp add: beforeDestroy_fields s1 register_fields(1))
  have 2: "findLineComponent (Str ?i) ?s2 = Inl (CanNotFindThisLine (Str ?i))"
    using find_None_image [OF nL]
    by (simp add: findLineComponent_def beforeDestroy_fields(1))
  have 3: "findPartComponent (Str ?i) ?s2 = Inl (CanNotFindThisPart (Str ?i))"
    if "id_match ?i = Some ?i"
    using that find_None_image [OF nP]
    by (simp add: findPartComponent_def beforeDestroy_fields(1))
  from 1 2 3 show ?thesis
    by blast
qed

theorem create_destroy_released_witness:
  "consistent (init heap_fresh)
   \<and> admissible (CreateEntity 0) (init heap_fresh)
   \<and> created catalog_R 0 (init heap_fresh) = Some (Inr (register 0 (js ''R_1'') (init heap_fresh)))
   \<and> \<not> hasId (js ''R_1'') (beforeDestroy 0 (register 0 (js ''R_1'') (init heap_fresh)))
   \<and> findLineComponent (Str (js ''R_1'')) (beforeDestroy 0 (register 0 (js ''R_1'') (init heap_fresh)))
        = Inl (CanNotFindThisLine (Str (js ''R_1'')))
   \<and> id_match (js ''R_1'') = Some (js ''R_1'')
   \<and> findPartComponent (Str (js ''R_1'')) (beforeDestroy 0 (register 0 (js ''R_1'') (init heap_fresh)))
        = Inl (CanNotFindThisPart (Str (js ''R_1'')))"
proof -
  have c: "consistent (init heap_fresh)"
    by (rule consistent_init)
  have a: "admissible (CreateEntity 0) (init heap_fresh)"
    by (simp add: run_simps catalog_R_def heap_fresh_def)
  have r: "created catalog_R 0 (init heap_fresh) = Some (Inr (register 0 (js ''R_1'') (init heap_fresh)))"
    by (simp add: run_simps register_def catalog_R_def heap_fresh_def)
  have i: "id' (heap (register 0 (js ''R_1'') (init heap_fresh)) 0) = js ''R_1''"
    by (simp add: register_fields)
  have m: "id_match (js ''R_1'') = Some (js ''R_1'')"
    by (simp add: match_simps)
  from create_destroy_released [OF c a r] c a r m show ?thesis
    unfolding i by blast
qed

text \<open>
  Claim C7 as stated fails when another registered entity holds the same id: a wire is
  created and allotted \<open>line_1\<close>, a part is created with the caller-chosen id \<open>line_1\<close> and
  destroyed again; the lookup of \<open>line_1\<close> still returns the wire.
\<close>

theorem create_destroy_released_counterexample:
  "id' (heap (last (trace catalog_R [CreateEntity 0, CreateEntity 1, DestroyEntity 1]
                      (init heap_wire_and_part))) 1) = js ''line_1''
   \<and> findLineComponent (Str (js ''line_1''))
     (last (trace catalog_R [CreateEntity 0, CreateEntity 1, DestroyEntity 1] (init heap_wire_and_part)))
   = Inr 0"
  by (simp add: run_simps catalog_R_def heap_wire_and_part_def findLineComponent_def)

section \<open>Lookup by id\<close>

lemma not_letter_underscore: "\<not> is_letter underscore"
  by (simp add: is_letter_def underscore_def)

lemma takeWhile_all: "\<forall>x\<in>set xs. P x \<Longrightarrow> takeWhile P xs = xs"
  by (induction xs) auto

lemma id_match_here_prefix:
  assumes "id_match_here str = Some tok"
  shows "(\<exists>b. str = tok @ b) \<and> id_match_here tok = Some tok"
proof -
  define a where "a = takeWhile is_letter str"
  from assms have a: "a \<noteq> []"
    by (auto simp: id_match_here_def a_def Let_def split: if_splits)
  from assms obtain r' where r: "dropWhile is_letter str = underscore # r'"
    and c: "takeWhile is_alnum r' \<noteq> []"
    and tok: "tok = a @ [underscore] @ takeWhile is_alnum r'"
    by (auto simp: id_match_here_def a_def Let_def split: if_splits list.splits)
  have "str = a @ dropWhile is_letter str"
    by (simp add: a_def)
  also have "\<dots> = tok @ dropWhile is_alnum r'"
    by (simp add: r tok)
  finally have 1: "\<exists>b. str = tok @ b" ..
  have la: "\<forall>x\<in>set a. is_letter x"
    unfolding a_def by (auto dest: set_takeWhileD)
  have lc: "\<forall>x\<in>set (takeWhile is_alnum r'). is_alnum x"
    by (auto dest: set_takeWhileD)
  from la have t: "takeWhile is_letter tok = a"
    by (simp add: tok takeWhile_append2 not_letter_underscore)
  from la have d: "dropWhile is_letter tok = underscore # takeWhile is_alnum r'"
    by (simp add: tok dropWhile_append2 not_letter_underscore)
  from lc have "takeWhile is_alnum (takeWhile is_alnum r') = takeWhile is_alnum r'"
    by (rule takeWhile_all)
  with a c t d have 2: "id_match_here tok = Some tok"
    by (simp add: id_match_here_def tok)
  from 1 2 show ?thesis ..
qed

lemma id_match_token:
  assumes "id_match str = Some tok"
  shows "(\<exists>a b. str = a @ tok @ b) \<and> id_match tok = Some tok"
  using assms
proof (induction str)
  case Nil
  then show ?case by simp
next
  case (Cons c cs)
  show ?case
  proof (cases "id_match_here (c # cs)")
    case None
    with Cons.prems have "id_match cs = Some tok" by simp
    then have "(\<exists>a b. cs = a @ tok @ b) \<and> id_match tok = Some tok"
      by (rule Cons.IH)
    then obtain a b where "cs = a @ tok @ b" and t: "id_match tok = Some tok"
      by blast
    then have "c # cs = (c # a) @ tok @ b"
      by simp
    with t show ?thesis
      by blast
  next
    case (Some m)
    with Cons.prems have m: "m = tok" by simp
    from id_match_here_prefix [OF Some] obtain b where b: "c # cs = tok @ b"
      and h: "id_match_here tok = Some tok"
      unfolding m by blast
    from h have "tok \<noteq> []"
      by (auto simp: id_match_here_def)
    with h have "id_match tok = Some tok"
      by (cases tok) simp_all
    moreover from b have "c # cs = [] @ tok @ b"
      by simp
    ultimately show ?thesis
      by blast
  qed
qed

text \<open>
  What the two lookups do with a string. When the query contains a token of the form
  \<open>letters_alphanumerics\<close>, the part lookup searches for the leftmost such token, a
  segment of the query that is its own normal form: it returns a part whose id is the
  token when there is one, and throws its not-found error otherwise. The wire lookup
  searches for the query string as it is.
\<close>

lemma lookup_by_string:
  assumes "id_match str = Some tok"
  shows "(\<exists>a b. str = a @ tok @ b) \<and> id_match tok = Some tok
       \<and> (tok \<in> (\<lambda>r. id' (heap s r)) ` set (PartComponents s) \<longrightarrow>
            (\<exists>r\<in>set (PartComponents s).
               findPartComponent (Str str) s = Inr r \<and> id' (heap s r) = tok))
       \<and> (tok \<notin> (\<lambda>r. id' (heap s r)) ` set (PartComponents s) \<longrightarrow>
            findPartComponent (Str str) s = Inl (CanNotFindThisPart (Str str)))
       \<and> (str \<in> (\<lambda>r. id' (heap s r)) ` set (LineComponents s) \<longrightarrow>
            (\<exists>r\<in>set (LineComponents s).
               findLineComponent (Str str) s = Inr r \<and> id' (heap s r) = str))
       \<and> (str \<notin> (\<lambda>r. id' (heap s r)) ` set (LineComponents s) \<longrightarrow>
            findLineComponent (Str str) s = Inl (CanNotFindThisLine (Str str)))"
proof -
  let ?f = "\<lambda>r. id' (heap s r)"
  note tokn = id_match_token [OF assms]
  have p1: "\<exists>r\<in>set (PartComponents s). findPartComponent (Str str) s = Inr r \<and> ?f r = tok"
    if "tok \<in> ?f ` set (PartComponents s)"
    using find_Some_image [OF that] assms by (auto simp: findPartComponent_def)
  have p2: "findPartComponent (Str str) s = Inl (CanNotFindThisPart (Str str))"
    if "tok \<notin> ?f ` set (PartComponents s)"
    using find_None_image [OF that] assms by (simp add: findPartComponent_def)
  have l1: "\<exists>r\<in>set (LineComponents s). findLineComponent (Str str) s = Inr r \<and> ?f r = str"
    if "str \<in> ?f ` set (LineComponents s)"
    using find_Some_image [OF that] by (auto simp: findLineComponent_def)
  have l2: "findLineComponent (Str str) s = Inl (CanNotFindThisLine (Str str))"
    if "str \<notin> ?f ` set (LineComponents s)"
    using find_None_image [OF that] by (simp add: findLineComponent_def)
  from tokn p1 p2 l1 l2 show ?thesis
    by blast
qed

lemma part_and_wire_fields:
  "PartComponents part_and_wire = [0]"
  "LineComponents part_and_wire = [1]"
  "id' (heap part_and_wire 0) = js ''R_1''"
  "id' (heap part_and_wire (Suc 0)) = js ''line_1''"
  by (simp_all add: part_and_wire_def run_simps catalog_R_def heap_part_and_wire_def)

text \<open>
  Claim C8. The part lookup normalizes its query: it finds the part \<open>R_1\<close> from the text
  \<open>#R_1\<close>. The wire lookup does not: the text \<open>#line_1\<close> contains the id of a
  registered wire, its token is \<open>line_1\<close>, and the lookup throws its not-found error.
\<close>

theorem findLineComponent_no_normalization:
  "id_match (js ''#line_1'') = Some (js ''line_1'')
   \<and> live_ids part_and_wire = [js ''R_1'', js ''line_1'']
   \<and> findPartComponent (Str (js ''#R_1'')) part_and_wire = Inr 0
   \<and> findLineComponent (Str (js ''#line_1'')) part_and_wire
       = Inl (CanNotFindThisLine (Str (js ''#line_1'')))"
  by (simp add: part_and_wire_def run_simps catalog_R_def heap_part_and_wire_def findLineComponent_def
      findPartComponent_def id_match_here_def is_letter_def is_alnum_def is_digit_def)

section \<open>numberParser\<close>

lemmas number_simps = numberParser_def numberMatcher_def plain_decimal_def scientific_def
  si_suffixed_def is_digits_def is_eE_def is_suffix_def is_digit_def dot_def minus_sign_def
  mu_def js_def Number'_def decimal_value_def digits_value_def Math_pow10_def times'_def
  exp_table_def

lemma plain_decimal_chars:
  assumes "plain_decimal m"
  shows "\<forall>c\<in>set m. is_digit c \<or> c = dot"
proof -
  have "set m = set (takeWhile is_digit m) \<union> set (dropWhile is_digit m)"
    by (metis set_append takeWhile_dropWhile_id)
  moreover have "\<forall>c\<in>set (takeWhile is_digit m). is_digit c"
    by (auto dest: set_takeWhileD)
  moreover have "\<forall>c\<in>set (dropWhile is_digit m). is_digit c \<or> c = dot"
  proof (cases "dropWhile is_digit m")
    case Nil
    then show ?thesis by (auto dest: set_dropWhileD)
  next
    case (Cons c f)
    with assms have "c = dot" and "list_all is_digit f"
      by (simp_all add: plain_decimal_def is_digits_def)
    with Cons show ?thesis
      by (auto simp: list_all_iff)
  qed
  ultimately show ?thesis
    by blast
qed

lemma plain_decimal_Number:
  assumes "plain_decimal m"
  shows "Number' m = Num (decimal_value m)"
proof -
  from assms obtain c cs where m: "m = c # cs" and d: "is_digit c"
    by (cases m) (auto simp: plain_decimal_def split: if_splits)
  from d have "c \<noteq> minus_sign"
    by (auto simp: is_digit_def minus_sign_def)
  with assms m show ?thesis
    by (simp add: Number'_def)
qed

lemma is_suffix_iff:
  "is_suffix c \<longleftrightarrow> c = of_char CHR ''p'' \<or> c = of_char CHR ''u'' \<or> c = mu \<or> c = of_char CHR ''n''
     \<or> c = of_char CHR ''m'' \<or> c = of_char CHR ''k'' \<or> c = of_char CHR ''M'' \<or> c = of_char CHR ''G''"
  by (auto simp: is_suffix_def js_def)

text \<open>
  Claim C4. For a numeral with a suffix, the result is the value of the numeral without
  its last character, times ten to the power the suffix stands for: \<open>p\<close> is \<open>-12\<close>, \<open>u\<close>
  and \<open>\<mu>\<close> are \<open>-9\<close>, \<open>n\<close> is \<open>-6\<close>, \<open>m\<close> is \<open>-3\<close>, \<open>k\<close> is \<open>3\<close>, \<open>M\<close> is \<open>6\<close>, \<open>G\<close> is \<open>9\<close>.
\<close>

theorem numberParser_suffix_table:
  assumes "si_suffixed s"
  shows "numberParser s = Num (decimal_value (butlast s) * 10 powi
           (if last s = of_char CHR ''p'' then - 12
            else if last s = of_char CHR ''u'' \<or> last s = mu then - 9
            else if last s = of_char CHR ''n'' then - 6
            else if last s = of_char CHR ''m'' then - 3
            else if last s = of_char CHR ''k'' then 3
            else if last s = of_char CHR ''M'' then 6
            else 9 :: int))"
proof -
  from assms have ne: "s \<noteq> []" and pd: "plain_decimal (butlast s)" and sf: "is_suffix (last s)"
    by (simp_all add: si_suffixed_def)
  from assms have m: "numberMatcher s"
    by (simp add: numberMatcher_def)
  have "\<not> is_eE c" if "c \<in> set s" for c
  proof -
    from ne that have "c \<in> set (butlast s) \<or> c = last s"
      by (metis append_butlast_last_id insert_iff list.set(2) rotate1.simps(2) set_rotate1)
    then show ?thesis
    proof
      assume "c \<in> set (butlast s)"
      with plain_decimal_chars [OF pd] show ?thesis
        by (auto simp: is_eE_def is_digit_def dot_def)
    next
      assume "c = last s"
      with sf show ?thesis
        by (auto simp: is_suffix_iff is_eE_def mu_def)
    qed
  qed
  then have e: "\<not> list_ex is_eE s"
    by (auto simp: list_ex_iff)
  from m e ne sf have "numberParser s =
      (case exp_table (last s) of None \<Rightarrow> NaN
       | Some pw \<Rightarrow> times' (Number' (butlast s)) (Math_pow10 (Num (of_int pw))))"
    by (simp add: numberParser_def)
  with sf show ?thesis
    by (auto simp: is_suffix_iff exp_table_def mu_def plain_decimal_Number [OF pd]
        Math_pow10_def times'_def)
qed

theorem numberParser_suffix_table_witness:
  "si_suffixed (js ''2.2u'') \<and> numberParser (js ''2.2u'') = Num (22 / 10 * 10 powi (- 9))
   \<and> si_suffixed (js ''1'' @ [mu]) \<and> numberParser (js ''1'' @ [mu]) = Num (10 powi (- 9))
   \<and> si_suffixed (js ''4n'') \<and> numberParser (js ''4n'') = Num (4 * 10 powi (- 6))"
proof -
  have s: "si_suffixed (js ''2.2u'')" "si_suffixed (js ''1'' @ [mu])" "si_suffixed (js ''4n'')"
    by (simp_all add: si_suffixed_def plain_decimal_def is_digits_def is_digit_def is_suffix_iff
        js_def dot_def mu_def)
  have v: "decimal_value (butlast (js ''2.2u'')) = 22 / 10"
    "decimal_value (butlast (js ''1'' @ [mu])) = 1"
    "decimal_value (butlast (js ''4n'')) = 4"
    by (simp_all add: decimal_value_def digits_value_def is_digit_def js_def)
  have l: "last (js ''2.2u'') = of_char CHR ''u''" "last (js ''1'' @ [mu]) = mu"
    "last (js ''4n'') = of_char CHR ''n''"
    by (simp_all add: js_def)
  from numberParser_suffix_table [OF s(1)] numberParser_suffix_table [OF s(2)]
    numberParser_suffix_table [OF s(3)] s
  show ?thesis
    unfolding v l by (simp add: mu_def)
qed

text \<open>
  Claim C5. A string of none of the three shapes gives \<open>NaN\<close>; so do \<open>abc\<close>, \<open>1x\<close> and
  \<open>--5\<close>. (The function returns a number on every string: nothing in it throws.)
\<close>

theorem numberParser_malformed:
  "(\<not> plain_decimal s \<and> \<not> scientific s \<and> \<not> si_suffixed s \<longrightarrow> numberParser s = NaN)
   \<and> numberParser (js ''abc'') = NaN
   \<and> numberParser (js ''1x'') = NaN
   \<and> numberParser (js ''--5'') = NaN"
  by (simp add: number_simps)

theorem numberParser_malformed_witness:
  "\<not> plain_decimal (js ''1x'') \<and> \<not> scientific (js ''1x'') \<and> \<not> si_suffixed (js ''1x'')
   \<and> numberParser (js ''1x'') = NaN"
proof -
  have "\<not> plain_decimal (js ''1x'') \<and> \<not> scientific (js ''1x'') \<and> \<not> si_suffixed (js ''1x'')"
    by (simp add: number_simps)
  with numberParser_malformed [of "js ''1x''"] show ?thesis
    by blast
qed

text \<open>
  Claim C3. The values of the five representative inputs. Four are as stated; \<open>2.2u\<close> is
  \<open>2.2 \<times> 10\<^sup>-\<^sup>9\<close> and not \<open>2.2 \<times> 10\<^sup>-\<^sup>6\<close>: the table gives \<open>u\<close> the power \<open>-9\<close>, where
  the comment at the head of the file says \<^verbatim>\<open>1u = 1e-6\<close>.
\<close>

theorem numberParser_examples:
  "numberParser (js ''1k'') = Num 1000
   \<and> numberParser (js ''1.5M'') = Num 1500000
   \<and> numberParser (js ''1e-3'') = Num (1 / 1000)
   \<and> numberParser (js ''3p'') = Num (3 / 10 ^ 12)
   \<and> numberParser (js ''2.2u'') = Num (22 / 10 ^ 10)
   \<and> numberParser (js ''2.2u'') \<noteq> Num (22 / 10 ^ 7)"
  by (simp add: number_simps)

text \<open>Every string the matcher accepts has a value.\<close>

lemma digits_plain_decimal:
  assumes "is_digits d"
  shows "plain_decimal d" and "decimal_value d = of_nat (digits_value d)"
proof -
  from assms have a: "\<forall>x\<in>set d. is_digit x" and ne: "d \<noteq> []"
    by (simp_all add: is_digits_def list_all_iff)
  from a have t: "takeWhile is_digit d = d"
    by (rule takeWhile_all)
  from a have r: "dropWhile is_digit d = []"
    by simp
  from ne show "plain_decimal d" and "decimal_value d = of_nat (digits_value d)"
    by (simp_all add: plain_decimal_def decimal_value_def t r)
qed

lemma Math_pow10_int: "Math_pow10 (Num (of_int k)) = Num (10 powi k)"
  by (simp add: Math_pow10_def)

lemma digits_exponent:
  assumes "is_digits d"
  shows "\<exists>k. Math_pow10 (Number' d) = Num (10 powi k)"
    and "\<exists>k. Math_pow10 (Number' (minus_sign # d)) = Num (10 powi k)"
proof -
  from digits_plain_decimal [OF assms]
  have "Number' d = Num (of_int (int (digits_value d)))"
    "Number' (minus_sign # d) = Num (of_int (- int (digits_value d)))"
    by (simp_all add: plain_decimal_Number) (simp add: Number'_def)
  then show "\<exists>k. Math_pow10 (Number' d) = Num (10 powi k)"
    and "\<exists>k. Math_pow10 (Number' (minus_sign # d)) = Num (10 powi k)"
    by (metis Math_pow10_int)+
qed

lemma numberParser_accepts:
  assumes "numberMatcher s"
  shows "\<exists>q. numberParser s = Num q"
proof -
  consider (sci) "scientific s" | (si) "si_suffixed s" | (plain) "plain_decimal s" "\<not> scientific s"
    using assms by (auto simp: numberMatcher_def)
  then show ?thesis
  proof cases
    case si
    then show ?thesis
      by (simp add: numberParser_suffix_table)
  next
    case plain
    from plain_decimal_chars [OF plain(1)] have "\<forall>c\<in>set s. \<not> is_eE c \<and> \<not> is_suffix c"
      by (auto simp: is_eE_def is_suffix_iff is_digit_def dot_def mu_def)
    moreover from plain(1) have "s \<noteq> []"
      by (auto simp: plain_decimal_def)
    ultimately have "\<not> list_ex is_eE s" and "\<not> is_suffix (last s)"
      by (auto simp: list_ex_iff)
    with assms plain(1) show ?thesis
      by (simp add: numberParser_def plain_decimal_Number)
  next
    case sci
    let ?noE = "\<lambda>c. \<not> is_eE c"
    from sci have base: "plain_decimal (takeWhile ?noE s)"
      by (simp add: scientific_def)
    from sci obtain e c d where r: "dropWhile ?noE s = e # c # d"
      and x: "if c = minus_sign then is_digits d else is_digits (c # d)"
      by (auto simp: scientific_def split: list.splits)
    from r have ex: "list_ex is_eE s"
      by (metis dropWhile_eq_Nil_conv list.distinct(1) list_ex_iff)
    have noE: "\<forall>a\<in>set t. ?noE a" if "is_digits t" for t
      using that by (auto simp: is_digits_def list_all_iff is_digit_def is_eE_def)
    have "\<exists>k. Math_pow10 (Number' (takeWhile ?noE (c # d))) = Num (10 powi k)"
    proof (cases "c = minus_sign")
      case True
      with x have d: "is_digits d" by simp
      from noE [OF d] True have "takeWhile ?noE (c # d) = minus_sign # d"
        by (simp add: takeWhile_all is_eE_def minus_sign_def)
      with digits_exponent(2) [OF d] show ?thesis by simp
    next
      case False
      with x have d: "is_digits (c # d)" by simp
      from noE [OF d] have "takeWhile ?noE (c # d) = c # d"
        by (rule takeWhile_all)
      with digits_exponent(1) [OF d] show ?thesis by simp
    qed
    then obtain k where "Math_pow10 (Number' (takeWhile ?noE (tl (dropWhile ?noE s)))) = Num (10 powi k)"
      by (auto simp: r)
    with assms ex base show ?thesis
      by (simp add: numberParser_def Let_def plain_decimal_Number times'_def)
  qed
qed

section \<open>toRound\<close>

lemma String_nat_length_bounds:
  "0 < n \<Longrightarrow> 10 ^ (length (String_nat n) - 1) \<le> n \<and> n < 10 ^ length (String_nat n)"
proof (induction n rule: String_nat.induct)
  case (1 n)
  show ?case
  proof (cases "n < 10")
    case True
    with "1.prems" show ?thesis
      by (simp add: String_nat.simps [of n])
  next
    case False
    define L where "L = length (String_nat (n div 10))"
    from False have len: "length (String_nat n) = L + 1"
      by (simp add: String_nat.simps [of n] L_def)
    from False have pos: "0 < n div 10"
      by simp
    from "1.IH" [OF False pos] have lo: "10 ^ (L - 1) \<le> n div 10" and hi: "n div 10 < 10 ^ L"
      by (simp_all add: L_def)
    have L: "0 < L"
      using String_nat_not_Nil [of "n div 10"] by (simp add: L_def)
    then have "(10::nat) ^ L = 10 * 10 ^ (L - 1)"
      by (cases L) simp_all
    with lo have "10 ^ L \<le> 10 * (n div 10)"
      by simp
    then have 1: "10 ^ L \<le> n"
      by (rule order_trans) simp
    from hi have "10 * (n div 10) + 10 \<le> 10 * 10 ^ L"
      by simp
    then have 2: "n < 10 ^ (L + 1)"
      by (simp add: algebra_simps)
    from 1 2 show ?thesis
      by (simp add: len)
  qed
qed

lemma floor_log10_bounds:
  assumes "0 < x"
  shows "10 powi floor_log10 x \<le> x \<and> x < 10 powi (floor_log10 x + 1)"
proof (cases "1 \<le> x")
  case True
  define n where "n = nat \<lfloor>x\<rfloor>"
  define L where "L = length (String_nat n)"
  from True have n: "0 < n"
    by (simp add: n_def)
  from String_nat_length_bounds [OF n] have lo: "10 ^ (L - 1) \<le> n" and hi: "n < 10 ^ L"
    by (simp_all add: L_def)
  have L: "0 < L"
    using String_nat_not_Nil [of n] by (simp add: L_def)
  have "int (L - 1) = int L - 1"
    using L by linarith
  with True have k: "floor_log10 x = int (L - 1)"
    by (simp add: floor_log10_def n_def L_def)
  from True have nx: "rat_of_nat n \<le> x" and xn: "x < rat_of_nat n + 1"
    by (simp_all add: n_def) linarith+
  from lo have "rat_of_nat (10 ^ (L - 1)) \<le> of_nat n"
    by (rule of_nat_mono)
  then have "(10::rat) ^ (L - 1) \<le> of_nat n"
    by simp
  then have 1: "(10::rat) ^ (L - 1) \<le> x"
    using nx by (rule order_trans)
  from hi have "n + 1 \<le> 10 ^ L"
    by simp
  then have "rat_of_nat (n + 1) \<le> rat_of_nat (10 ^ L)"
    by (rule of_nat_mono)
  then have "rat_of_nat n + 1 \<le> 10 ^ L"
    by simp
  with xn have 2: "x < 10 ^ L"
    by (rule less_le_trans)
  have "int (L - 1) + 1 = int L"
    using L by linarith
  then have p: "(10::rat) powi int (L - 1) = 10 ^ (L - 1)" "(10::rat) powi (int (L - 1) + 1) = 10 ^ L"
    by (simp_all only: power_int_of_nat)
  from 1 2 show ?thesis
    unfolding k p by blast
next
  case False
  define y where "y = 1 / x"
  define n where "n = nat (\<lceil>y\<rceil> - 1)"
  define L where "L = length (String_nat n)"
  from False assms have y: "1 < y"
    by (simp add: y_def)
  then have c: "2 \<le> \<lceil>y\<rceil>"
    by (simp add: le_ceiling_iff)
  then have n: "0 < n"
    by (simp add: n_def)
  from String_nat_length_bounds [OF n] have lo: "10 ^ (L - 1) \<le> n" and hi: "n < 10 ^ L"
    by (simp_all add: L_def)
  have L: "0 < L"
    using String_nat_not_Nil [of n] by (simp add: L_def)
  have k: "floor_log10 x = - int L"
    using False by (simp add: floor_log10_def n_def L_def y_def)
  from c have "rat_of_nat n = of_int \<lceil>y\<rceil> - 1"
    by (simp add: n_def)
  then have ny: "rat_of_nat n < y" and yn: "y \<le> rat_of_nat n + 1"
    by (simp_all add: le_of_int_ceiling) linarith
  from lo have "rat_of_nat (10 ^ (L - 1)) \<le> of_nat n"
    by (rule of_nat_mono)
  then have "(10::rat) ^ (L - 1) \<le> of_nat n"
    by simp
  then have 1: "(10::rat) ^ (L - 1) < y"
    using ny by (rule le_less_trans)
  from hi have "n + 1 \<le> 10 ^ L"
    by simp
  then have "rat_of_nat (n + 1) \<le> rat_of_nat (10 ^ L)"
    by (rule of_nat_mono)
  then have "rat_of_nat n + 1 \<le> 10 ^ L"
    by simp
  with yn have 2: "y \<le> 10 ^ L"
    by (rule order_trans)
  from 2 assms have a: "1 / 10 ^ L \<le> x"
    by (simp add: y_def field_simps)
  from 1 assms have b: "x < 1 / 10 ^ (L - 1)"
    by (simp add: y_def field_simps)
  have "- int L + 1 = - int (L - 1)"
    using L by linarith
  then have p: "(10::rat) powi (- int L) = 1 / 10 ^ L" "(10::rat) powi (- int L + 1) = 1 / 10 ^ (L - 1)"
    by (simp_all only: power_int_minus power_int_of_nat inverse_eq_divide)
  from a b show ?thesis
    unfolding k p by blast
qed

lemma of_rat_power_int_10: "(of_rat (10 powi k) :: real) = 10 powi k"
  by (simp add: power_int_def of_rat_power of_rat_inverse of_rat_divide)

lemma floor_log10_eq_log:
  assumes "0 < x"
  shows "\<lfloor>log 10 (real_of_rat x)\<rfloor> = floor_log10 x"
proof -
  let ?k = "floor_log10 x"
  from floor_log10_bounds [OF assms]
  have "real_of_rat (10 powi ?k) \<le> real_of_rat x" and "real_of_rat x < real_of_rat (10 powi (?k + 1))"
    by (simp_all only: of_rat_less_eq of_rat_less)
  then have "10 powr real_of_int ?k \<le> real_of_rat x"
    and "real_of_rat x < 10 powr real_of_int (?k + 1)"
    by (simp_all only: of_rat_power_int_10 powr_real_of_int' [of 10, simplified])
  moreover from assms have "0 < real_of_rat x"
    by simp
  ultimately show ?thesis
    using floor_log_eq_powr_iff [of "real_of_rat x" 10 ?k] by simp
qed

lemma floor_rat_numeral_div:
  "\<lfloor>numeral a / numeral b :: rat\<rfloor> = numeral a div numeral b"
  by (metis floor_divide_of_int_eq of_int_numeral)

lemma ceiling_rat_numeral_div:
  "\<lceil>numeral a / numeral b :: rat\<rceil> = - (- numeral a div numeral b)"
  unfolding ceiling_def
  by (metis floor_divide_of_int_eq of_int_numeral of_int_minus minus_divide_left)

lemma replicate_numeral': "replicate (numeral k) x = x # replicate (pred_numeral k) x"
  by (simp add: numeral_eq_Suc)

lemmas round_simps = toRound_def floor_log10_def Math_round_def slice_def slice_from_def
  parseFloat_def String_nat.simps digit_char_def zero_char_def minus_sign_def dot_def js_def
  is_digit_def digits_value_def Let_def floor_rat_numeral_div ceiling_rat_numeral_div
  replicate_numeral'

text \<open>
  Claim C9. The three examples of rounding to six significant digits, and the error on
  \<open>NaN\<close>.
\<close>

theorem toRound_examples:
  "toRound (Num 123456789) 6 = Inr (Num 123457000)
   \<and> toRound (Num (1234567 / 10 ^ 10)) 6 = Inr (Num (123457 / 10 ^ 9))
   \<and> toRound (Num (- 42)) 6 = Inr (Num (- 42))
   \<and> toRound NaN bits = Inl CannotRunToRoundOnNaN"
proof -
  have "toRound (Num 123456789) 6 = Inr (Num 123457000)"
    by (simp add: round_simps)
  moreover have "toRound (Num (1234567 / 10 ^ 10)) 6 = Inr (Num (123457 / 10 ^ 9))"
    by (simp add: round_simps)
  moreover have "toRound (Num (- 42)) 6 = Inr (Num (- 42))"
    by (simp add: round_simps)
  moreover have "toRound NaN bits = Inl CannotRunToRoundOnNaN"
    by (simp add: toRound_def)
  ultimately show ?thesis
    by blast
qed

text \<open>
  When the last digit kept is the unit digit, the third branch puts the point in front
  of all the digits.
\<close>

lemma toRound_unit_digit:
  "toRound (Num (1234567 / 10)) 6 = Inr (Num (123457 / 10 ^ 6))"
  by (simp add: round_simps)

section \<open>The regular expressions\<close>

text \<open>
  The recognisers of the model, stated as the regular expressions of the source read
  them: \<^verbatim>\<open>\d+(\.\d+)?\<close>, the same followed by \<^verbatim>\<open>[eE]-?\d+\<close>, the same followed by
  a suffix; \<^verbatim>\<open>^([^_]+)(_[^_]+)?$\<close> with its first group; and
  \<^verbatim>\<open>[a-zA-Z]+_[a-zA-Z0-9]+\<close>, matched greedily at the leftmost position that has a
  match.
\<close>

lemma not_digit_dot: "\<not> is_digit dot"
  by (simp add: is_digit_def dot_def)

lemma is_digits_iff: "is_digits s \<longleftrightarrow> s \<noteq> [] \<and> (\<forall>c\<in>set s. is_digit c)"
  by (simp add: is_digits_def list_all_iff)

lemma plain_decimal_iff:
  "plain_decimal s \<longleftrightarrow>
     is_digits s \<or> (\<exists>a b. s = a @ [dot] @ b \<and> is_digits a \<and> is_digits b)"
proof
  assume p: "plain_decimal s"
  let ?a = "takeWhile is_digit s"
  from p have a: "is_digits ?a"
    by (auto simp: plain_decimal_def is_digits_iff dest: set_takeWhileD)
  show "is_digits s \<or> (\<exists>a b. s = a @ [dot] @ b \<and> is_digits a \<and> is_digits b)"
  proof (cases "dropWhile is_digit s")
    case Nil
    then have "?a = s"
      by (metis append_Nil2 takeWhile_dropWhile_id)
    with a show ?thesis by simp
  next
    case (Cons c f)
    with p have "c = dot" and f: "is_digits f"
      by (simp_all add: plain_decimal_def)
    with Cons have "s = ?a @ [dot] @ f"
      by (metis append_Cons append_Nil takeWhile_dropWhile_id)
    with a f show ?thesis by blast
  qed
next
  assume "is_digits s \<or> (\<exists>a b. s = a @ [dot] @ b \<and> is_digits a \<and> is_digits b)"
  then show "plain_decimal s"
  proof
    assume "is_digits s"
    then show ?thesis by (rule digits_plain_decimal)
  next
    assume "\<exists>a b. s = a @ [dot] @ b \<and> is_digits a \<and> is_digits b"
    then obtain a b where s: "s = a @ [dot] @ b" and a: "is_digits a" and b: "is_digits b"
      by blast
    from a have "takeWhile is_digit s = a" and "dropWhile is_digit s = dot # b"
      by (simp_all add: s is_digits_iff takeWhile_append2 dropWhile_append2 not_digit_dot)
    with a b show ?thesis
      by (simp add: plain_decimal_def is_digits_iff)
  qed
qed

lemma si_suffixed_iff:
  "si_suffixed s \<longleftrightarrow> (\<exists>m c. s = m @ [c] \<and> plain_decimal m \<and> is_suffix c)"
proof
  assume "si_suffixed s"
  then have "s = butlast s @ [last s]" and "plain_decimal (butlast s)" and "is_suffix (last s)"
    by (simp_all add: si_suffixed_def)
  then show "\<exists>m c. s = m @ [c] \<and> plain_decimal m \<and> is_suffix c"
    by blast
next
  assume "\<exists>m c. s = m @ [c] \<and> plain_decimal m \<and> is_suffix c"
  then show "si_suffixed s"
    by (auto simp: si_suffixed_def)
qed

lemma scientific_iff:
  "scientific s \<longleftrightarrow>
     (\<exists>m e x. s = m @ [e] @ x \<and> plain_decimal m \<and> is_eE e \<and>
        (is_digits x \<or> (\<exists>d. x = minus_sign # d \<and> is_digits d)))"
proof
  let ?noE = "\<lambda>c. \<not> is_eE c"
  assume sc: "scientific s"
  then obtain e x where r: "dropWhile ?noE s = e # x"
    by (auto simp: scientific_def split: list.splits)
  then have e: "is_eE e"
    by (metis (mono_tags, lifting) dropWhile_eq_Cons_conv)
  from r have s: "s = takeWhile ?noE s @ [e] @ x"
    by (metis append_Cons append_Nil takeWhile_dropWhile_id)
  from sc r have "is_digits x \<or> (\<exists>d. x = minus_sign # d \<and> is_digits d)"
    by (auto simp: scientific_def split: list.splits if_splits)
  with sc s e show "\<exists>m e x. s = m @ [e] @ x \<and> plain_decimal m \<and> is_eE e \<and>
        (is_digits x \<or> (\<exists>d. x = minus_sign # d \<and> is_digits d))"
    unfolding scientific_def by blast
next
  let ?noE = "\<lambda>c. \<not> is_eE c"
  assume "\<exists>m e x. s = m @ [e] @ x \<and> plain_decimal m \<and> is_eE e \<and>
        (is_digits x \<or> (\<exists>d. x = minus_sign # d \<and> is_digits d))"
  then obtain m e x where s: "s = m @ [e] @ x" and m: "plain_decimal m" and e: "is_eE e"
    and x: "is_digits x \<or> (\<exists>d. x = minus_sign # d \<and> is_digits d)"
    by blast
  from plain_decimal_chars [OF m] have "\<forall>c\<in>set m. ?noE c"
    by (auto simp: is_eE_def is_digit_def dot_def)
  with e have t: "takeWhile ?noE s = m" and d: "dropWhile ?noE s = e # x"
    by (simp_all add: s takeWhile_append2 dropWhile_append2)
  from x have "case x of [] \<Rightarrow> False | c # d \<Rightarrow> if c = minus_sign then is_digits d else is_digits x"
    by (auto simp: is_digits_iff is_digit_def minus_sign_def split: list.splits)
  with m t d show "scientific s"
    by (simp add: scientific_def)
qed

lemma createId_match_iff:
  "createId_match i = Some a \<longleftrightarrow>
     a \<noteq> [] \<and> underscore \<notin> set a \<and>
     (i = a \<or> (\<exists>b. i = a @ [underscore] @ b \<and> b \<noteq> [] \<and> underscore \<notin> set b))"
proof
  let ?nu = "\<lambda>c. c \<noteq> underscore"
  assume m: "createId_match i = Some a"
  then have a: "a = takeWhile ?nu i" and ne: "a \<noteq> []"
    by (auto simp: createId_match_def Let_def split: if_splits)
  from a have nu: "underscore \<notin> set a"
    by (auto dest: set_takeWhileD)
  show "a \<noteq> [] \<and> underscore \<notin> set a \<and>
     (i = a \<or> (\<exists>b. i = a @ [underscore] @ b \<and> b \<noteq> [] \<and> underscore \<notin> set b))"
  proof (cases "dropWhile ?nu i")
    case Nil
    then have "i = a"
      unfolding a by (metis append_Nil2 takeWhile_dropWhile_id)
    with ne nu show ?thesis by blast
  next
    case (Cons c b)
    then have "c = underscore"
      by (metis (mono_tags, lifting) dropWhile_eq_Cons_conv)
    with Cons have "i = a @ [underscore] @ b"
      unfolding a by (metis append_Cons append_Nil takeWhile_dropWhile_id)
    moreover from m Cons have "b \<noteq> []" and "underscore \<notin> set b"
      by (auto simp: createId_match_def Let_def split: if_splits)
    ultimately show ?thesis
      using ne nu by blast
  qed
next
  let ?nu = "\<lambda>c. c \<noteq> underscore"
  assume h: "a \<noteq> [] \<and> underscore \<notin> set a \<and>
     (i = a \<or> (\<exists>b. i = a @ [underscore] @ b \<and> b \<noteq> [] \<and> underscore \<notin> set b))"
  then have ne: "a \<noteq> []" and nu: "\<forall>c\<in>set a. ?nu c"
    by auto
  from h consider "i = a" | b where "i = a @ [underscore] @ b" "b \<noteq> []" "underscore \<notin> set b"
    by blast
  then show "createId_match i = Some a"
  proof cases
    case 1
    with nu have "takeWhile ?nu i = a" and "dropWhile ?nu i = []"
      by (simp_all add: takeWhile_all)
    with ne show ?thesis
      by (simp add: createId_match_def)
  next
    case 2
    with nu have "takeWhile ?nu i = a" and "dropWhile ?nu i = underscore # b"
      by (simp_all add: takeWhile_append2 dropWhile_append2)
    with ne 2 show ?thesis
      by (simp add: createId_match_def)
  qed
qed


lemma takeWhile_append_stop:
  assumes "\<forall>x\<in>set c. P x" and "r = [] \<or> \<not> P (hd r)"
  shows "takeWhile P (c @ r) = c"
  using assms by (cases r) (simp_all add: takeWhile_all takeWhile_append2)

lemma id_match_here_iff:
  "id_match_here s = Some t \<longleftrightarrow>
     (\<exists>a c r. s = t @ r \<and> t = a @ [underscore] @ c
        \<and> a \<noteq> [] \<and> (\<forall>x\<in>set a. is_letter x)
        \<and> c \<noteq> [] \<and> (\<forall>x\<in>set c. is_alnum x)
        \<and> (r = [] \<or> \<not> is_alnum (hd r)))"
proof
  assume m: "id_match_here s = Some t"
  define a where "a = takeWhile is_letter s"
  from m obtain r' where d: "dropWhile is_letter s = underscore # r'"
    and ne: "a \<noteq> []" "takeWhile is_alnum r' \<noteq> []"
    and t: "t = a @ [underscore] @ takeWhile is_alnum r'"
    by (auto simp: id_match_here_def a_def Let_def split: if_splits list.splits)
  have "s = a @ dropWhile is_letter s"
    by (simp add: a_def)
  then have s: "s = t @ dropWhile is_alnum r'"
    by (simp add: d t)
  have la: "\<forall>x\<in>set a. is_letter x"
    unfolding a_def by (auto dest: set_takeWhileD)
  have lc: "\<forall>x\<in>set (takeWhile is_alnum r'). is_alnum x"
    by (auto dest: set_takeWhileD)
  have stop: "dropWhile is_alnum r' = [] \<or> \<not> is_alnum (hd (dropWhile is_alnum r'))"
    by (metis hd_dropWhile)
  from s t ne la lc stop
  show "\<exists>a c r. s = t @ r \<and> t = a @ [underscore] @ c
        \<and> a \<noteq> [] \<and> (\<forall>x\<in>set a. is_letter x)
        \<and> c \<noteq> [] \<and> (\<forall>x\<in>set c. is_alnum x)
        \<and> (r = [] \<or> \<not> is_alnum (hd r))"
    by blast
next
  assume "\<exists>a c r. s = t @ r \<and> t = a @ [underscore] @ c
        \<and> a \<noteq> [] \<and> (\<forall>x\<in>set a. is_letter x)
        \<and> c \<noteq> [] \<and> (\<forall>x\<in>set c. is_alnum x)
        \<and> (r = [] \<or> \<not> is_alnum (hd r))"
  then obtain a c r where s: "s = a @ [underscore] @ c @ r" and t: "t = a @ [underscore] @ c"
    and a: "a \<noteq> []" "\<forall>x\<in>set a. is_letter x"
    and c: "c \<noteq> []" "\<forall>x\<in>set c. is_alnum x"
    and r: "r = [] \<or> \<not> is_alnum (hd r)"
    by auto
  from a(2) have "takeWhile is_letter s = a" and "dropWhile is_letter s = underscore # c @ r"
    by (simp_all add: s takeWhile_append2 dropWhile_append2 not_letter_underscore)
  moreover from c(2) r have "takeWhile is_alnum (c @ r) = c"
    by (rule takeWhile_append_stop)
  ultimately show "id_match_here s = Some t"
    using a(1) c(1) by (simp add: id_match_here_def t)
qed

lemma id_match_leftmost:
  "id_match s = Some t \<longleftrightarrow>
     (\<exists>p r. s = p @ r \<and> id_match_here r = Some t
        \<and> (\<forall>k<length p. id_match_here (drop k s) = None))"
proof (induction s)
  case Nil
  show ?case
    by (simp add: id_match_here_def)
next
  case (Cons x xs)
  show ?case
  proof (cases "id_match_here (x # xs)")
    case (Some m)
    have "(\<exists>p r. x # xs = p @ r \<and> id_match_here r = Some t
        \<and> (\<forall>k<length p. id_match_here (drop k (x # xs)) = None)) \<longleftrightarrow> m = t"
    proof
      assume "\<exists>p r. x # xs = p @ r \<and> id_match_here r = Some t
        \<and> (\<forall>k<length p. id_match_here (drop k (x # xs)) = None)"
      then obtain p r where pr: "x # xs = p @ r" "id_match_here r = Some t"
        and no: "\<forall>k<length p. id_match_here (drop k (x # xs)) = None"
        by blast
      from no Some have "p = []"
        by (cases p) auto
      with pr Some show "m = t" by simp
    next
      assume "m = t"
      with Some have "x # xs = [] @ (x # xs) \<and> id_match_here (x # xs) = Some t
        \<and> (\<forall>k<length ([]::jsstring). id_match_here (drop k (x # xs)) = None)"
        by simp
      then show "\<exists>p r. x # xs = p @ r \<and> id_match_here r = Some t
        \<and> (\<forall>k<length p. id_match_here (drop k (x # xs)) = None)"
        by blast
    qed
    with Some show ?thesis by simp
  next
    case None
    have "(\<exists>p r. x # xs = p @ r \<and> id_match_here r = Some t
        \<and> (\<forall>k<length p. id_match_here (drop k (x # xs)) = None)) \<longleftrightarrow>
      (\<exists>p r. xs = p @ r \<and> id_match_here r = Some t
        \<and> (\<forall>k<length p. id_match_here (drop k xs) = None))"
    proof
      assume "\<exists>p r. x # xs = p @ r \<and> id_match_here r = Some t
        \<and> (\<forall>k<length p. id_match_here (drop k (x # xs)) = None)"
      then obtain p r where pr: "x # xs = p @ r" "id_match_here r = Some t"
        and no: "\<forall>k<length p. id_match_here (drop k (x # xs)) = None"
        by blast
      from pr None obtain p' where p: "p = x # p'"
        by (cases p) auto
      with pr have "xs = p' @ r" by simp
      moreover have "\<forall>k<length p'. id_match_here (drop k xs) = None"
      proof (intro allI impI)
        fix k assume "k < length p'"
        then have "Suc k < length p" by (simp add: p)
        with no have "id_match_here (drop (Suc k) (x # xs)) = None" by blast
        then show "id_match_here (drop k xs) = None" by simp
      qed
      ultimately show "\<exists>p r. xs = p @ r \<and> id_match_here r = Some t
        \<and> (\<forall>k<length p. id_match_here (drop k xs) = None)"
        using pr(2) by blast
    next
      assume "\<exists>p r. xs = p @ r \<and> id_match_here r = Some t
        \<and> (\<forall>k<length p. id_match_here (drop k xs) = None)"
      then obtain p r where pr: "xs = p @ r" "id_match_here r = Some t"
        and no: "\<forall>k<length p. id_match_here (drop k xs) = None"
        by blast
      have "\<forall>k<length (x # p). id_match_here (drop k (x # xs)) = None"
      proof (intro allI impI)
        fix k assume k: "k < length (x # p)"
        show "id_match_here (drop k (x # xs)) = None"
        proof (cases k)
          case 0
          with None show ?thesis by simp
        next
          case (Suc j)
          with k no show ?thesis by simp
        qed
      qed
      moreover from pr have "x # xs = (x # p) @ r" by simp
      ultimately show "\<exists>p r. x # xs = p @ r \<and> id_match_here r = Some t
        \<and> (\<forall>k<length p. id_match_here (drop k (x # xs)) = None)"
        using pr(2) by blast
    qed
    with None Cons.IH show ?thesis by simp
  qed
qed

end
